theory Spec2Isabelle
  imports Main "HOL-Library.Word" "HOL-Library.AList"
begin

unbundle bit_operations_syntax

section \<open>Errors\<close>

text \<open>
  The indexer has no error values of its own: it aborts through \<open>assert\<close>. Each
  failed assertion is a value of this type. \<open>CapacityExceeded\<close> is the assertion of a
  bitfield member assignment (the value does not fit the member), \<open>InvariantViolated\<close>
  is \<open>assert(usr.size() > 0)\<close> in the record constructors of \<open>indexer.h\<close>.
\<close>

datatype error = CapacityExceeded | InvariantViolated

section \<open>Location: a packed 64-bit bitfield (indexer.h, lines 31-80)\<close>

text \<open>
  \<open>FileId\<close> is \<open>int64_t\<close>; it is kept as the 64-bit pattern, which is also what the
  conversion to the \<open>uint64_t\<close> storage of the bitfield yields. \<open>sint\<close> reads it signed.
\<close>

type_synonym FileId = "64 word"

text \<open>\<open>BEGIN_BITFIELD_TYPE(Location, uint64_t)\<close>: a Location is its \<open>wrapper.value\<close>.\<close>

type_synonym Location = "64 word"

text \<open>
  The macros \<open>BEGIN_BITFIELD_TYPE\<close> and \<open>ADD_BITFIELD_MEMBER\<close> come from
  \<open>bitfield.h\<close>, which is not among the sources. The spec gives the layout (a member
  occupies \<open>Bits\<close> bits from bit \<open>Offset\<close> of the storage) and says that storing a
  member asserts that the value fits its width. The next four definitions are that
  member type.
\<close>

text \<open>Modelled from the spec: the largest value of a member of \<open>Bits\<close> bits.\<close>

definition Maximum :: "nat \<Rightarrow> 64 word" where
  "Maximum Bits = push_bit Bits 1 - 1"

text \<open>Modelled from the spec: the bits of the storage that a member occupies.\<close>

definition Mask :: "nat \<Rightarrow> nat \<Rightarrow> 64 word" where
  "Mask Offset Bits = push_bit Offset (Maximum Bits)"

text \<open>Modelled from the spec: reading a member of the bitfield.\<close>

definition member_get :: "nat \<Rightarrow> nat \<Rightarrow> 64 word \<Rightarrow> 64 word" where
  "member_get Offset Bits val = drop_bit Offset val AND Maximum Bits"

text \<open>
  Modelled from the spec: assigning \<open>v\<close> to a member of the bitfield. The assertion
  that \<open>v\<close> fits the member comes first; then the member's bits are replaced.
\<close>

definition member_set :: "nat \<Rightarrow> nat \<Rightarrow> 64 word \<Rightarrow> 64 word \<Rightarrow> error + 64 word" where
  "member_set Offset Bits val v =
     (if v \<le> Maximum Bits
      then Inr ((val AND NOT (Mask Offset Bits)) OR push_bit Offset v)
      else Inl CapacityExceeded)"

text \<open>The four members, lines 33-36.\<close>

definition interesting :: "Location \<Rightarrow> 64 word" where
  "interesting = member_get 0 1"

definition file_id :: "Location \<Rightarrow> 64 word" where
  "file_id = member_get 1 29"

definition line :: "Location \<Rightarrow> 64 word" where
  "line = member_get 30 20"

definition column :: "Location \<Rightarrow> 64 word" where
  "column = member_get 50 14"

text \<open>
  The constructor, lines 38-43: four member assignments in the order of the source, each
  of which may fail its assertion. The constructor does not initialise the storage, so
  \<open>Location_ctor_from\<close> takes the storage found there as \<open>storage\<close>; the four members
  cover all 64 bits, and lemma \<open>Location_ctor_from_storage\<close> below shows that the
  result does not depend on it. \<open>Location_ctor\<close> fixes it to 0. A \<open>bool\<close> converts to 0
  or 1, a \<open>uint32_t\<close> is zero-extended.
\<close>

definition Location_ctor_from ::
  "64 word \<Rightarrow> bool \<Rightarrow> FileId \<Rightarrow> 32 word \<Rightarrow> 32 word \<Rightarrow> error + Location" where
  "Location_ctor_from storage interesting' file_id' line' column' =
     (case member_set 0 1 storage (of_bool interesting') of
        Inl e \<Rightarrow> Inl e
      | Inr w1 \<Rightarrow>
     (case member_set 1 29 w1 file_id' of
        Inl e \<Rightarrow> Inl e
      | Inr w2 \<Rightarrow>
     (case member_set 30 20 w2 (ucast line') of
        Inl e \<Rightarrow> Inl e
      | Inr w3 \<Rightarrow> member_set 50 14 w3 (ucast column'))))"

definition Location_ctor :: "bool \<Rightarrow> FileId \<Rightarrow> 32 word \<Rightarrow> 32 word \<Rightarrow> error + Location" where
  "Location_ctor = Location_ctor_from 0"

text \<open>
  \<open>std::to_string\<close> on an unsigned value: its decimal digits, most significant first,
  no leading zero, \<open>0\<close> for zero.
\<close>

fun to_string :: "nat \<Rightarrow> string" where
  "to_string n =
     (if n < 10 then [char_of (48 + n)]
      else to_string (n div 10) @ [char_of (48 + n mod 10)])"

declare to_string.simps [simp del]

text \<open>
  \<open>ToString\<close>, lines 45-64. \<open>if (interesting)\<close> tests the member for non-zero; each
  \<open>result += ...\<close> appends.
\<close>

definition ToString :: "Location \<Rightarrow> string" where
  "ToString l =
     (let result = [];
          result = (if interesting l \<noteq> 0 then result @ [CHR ''*''] else result);
          result = result @ to_string (unat (file_id l));
          result = result @ [CHR '':''];
          result = result @ to_string (unat (line l));
          result = result @ [CHR '':''];
          result = result @ to_string (unat (column l))
      in result)"

text \<open>\<open>IsEqualTo\<close>, lines 69-72: the storage values shifted right by one are compared.\<close>

definition IsEqualTo :: "Location \<Rightarrow> Location \<Rightarrow> bool" where
  "IsEqualTo a o' = (drop_bit 1 a = drop_bit 1 o')"

text \<open>
  \<open>WithInteresting\<close>, lines 74-78: a copy with the member \<open>interesting\<close> assigned. A
  \<open>bool\<close> always fits the one-bit member (lemma \<open>member_set_bool\<close>), so the
  assertion cannot fail and the function is total.
\<close>

definition WithInteresting :: "Location \<Rightarrow> bool \<Rightarrow> Location" where
  "WithInteresting l interesting' =
     (case member_set 0 1 l (of_bool interesting') of
        Inr result \<Rightarrow> result
      | Inl e \<Rightarrow> l)"

text \<open>
  Decimal numerals, to say what \<open>to_string\<close> writes: a digit, and the value of a
  string of digits.
\<close>

definition is_digit :: "char \<Rightarrow> bool" where
  "is_digit c = (48 \<le> (of_char c :: nat) \<and> (of_char c :: nat) \<le> 57)"

definition digits_value :: "string \<Rightarrow> nat" where
  "digits_value ds = foldl (\<lambda>acc c. 10 * acc + ((of_char c :: nat) - 48)) 0 ds"

text \<open>
  \<open>from_string\<close>, the inverse of \<open>ToString\<close>, is not among the sources. The spec
  fixes the textual form it reads: an optional \<open>*\<close>, then \<open>file_id:line:column\<close>
  with the three numbers in decimal. The definitions up to \<open>from_string\<close> read that
  form; \<open>None\<close> is a rejected text.
\<close>

text \<open>Modelled from the spec: a decimal number at the head of the text, and the rest.\<close>

definition parse_number :: "string \<Rightarrow> (nat \<times> string) option" where
  "parse_number s =
     (let ds = takeWhile is_digit s
      in if ds = [] then None else Some (digits_value ds, dropWhile is_digit s))"

text \<open>Modelled from the spec: the colon between two numbers.\<close>

fun expect_colon :: "string \<Rightarrow> string option" where
  "expect_colon [] = None"
| "expect_colon (c # s) = (if c = CHR '':'' then Some s else None)"

text \<open>Modelled from the spec: the optional \<open>*\<close> in front, for an interesting Location.\<close>

fun strip_star :: "string \<Rightarrow> bool \<times> string" where
  "strip_star [] = (False, [])"
| "strip_star (c # s) = (if c = CHR ''*'' then (True, s) else (False, c # s))"

text \<open>Modelled from the spec: the three numbers \<open>file_id:line:column\<close>, and nothing after.\<close>

definition parse_fields :: "string \<Rightarrow> (nat \<times> nat \<times> nat) option" where
  "parse_fields s1 =
     (case parse_number s1 of None \<Rightarrow> None | Some (f, s2) \<Rightarrow>
     (case expect_colon s2 of None \<Rightarrow> None | Some s3 \<Rightarrow>
     (case parse_number s3 of None \<Rightarrow> None | Some (l, s4) \<Rightarrow>
     (case expect_colon s4 of None \<Rightarrow> None | Some s5 \<Rightarrow>
     (case parse_number s5 of None \<Rightarrow> None | Some (c, s6) \<Rightarrow>
        if s6 \<noteq> [] then None else Some (f, l, c))))))"

text \<open>
  Modelled from the spec: the Location of three numbers. They must fit the argument
  types of the constructor, and the Location is built by the constructor, so a number
  that does not fit its member is rejected.
\<close>

definition checked_location :: "bool \<Rightarrow> nat \<Rightarrow> nat \<Rightarrow> nat \<Rightarrow> Location option" where
  "checked_location star f l c =
     (if 2 ^ 64 \<le> f \<or> 2 ^ 32 \<le> l \<or> 2 ^ 32 \<le> c then None
      else (case Location_ctor star (word_of_nat f) (word_of_nat l) (word_of_nat c) of
              Inl e \<Rightarrow> None
            | Inr loc \<Rightarrow> Some loc))"

text \<open>Modelled from the spec: \<open>from_string\<close>, reading the textual form of a Location.\<close>

definition from_string :: "string \<Rightarrow> Location option" where
  "from_string s =
     (case strip_star s of (star, s1) \<Rightarrow>
      (case parse_fields s1 of
         None \<Rightarrow> None
       | Some (f, l, c) \<Rightarrow> checked_location star f l c))"

section \<open>Hash maps\<close>

text \<open>
  A \<open>std::unordered_map\<close> is an association list: \<open>find\<close> is the lookup of a key,
  \<open>m[k] = v\<close> replaces the binding of \<open>k\<close> or adds one, \<open>size()\<close> counts the keys.
  The order of the list is not observable through these three operations.
\<close>

type_synonym ('k, 'v) unordered_map = "('k \<times> 'v) list"

definition um_find :: "('k, 'v) unordered_map \<Rightarrow> 'k \<Rightarrow> 'v option" where
  "um_find m k = map_of m k"

definition um_assign :: "'k \<Rightarrow> 'v \<Rightarrow> ('k, 'v) unordered_map \<Rightarrow> ('k, 'v) unordered_map" where
  "um_assign k v m = AList.update k v m"

definition um_size :: "('k, 'v) unordered_map \<Rightarrow> nat" where
  "um_size m = length (remdups (map fst m))"

section \<open>IndexedFileDb: interning of file paths (indexer.h, lines 82-127)\<close>

record IndexedFileDb =
  file_path_to_file_id :: "(string, FileId) unordered_map"
  file_id_to_file_path :: "(FileId, string) unordered_map"

text \<open>The constructor, lines 86-90: id 0 is reserved for the empty path.\<close>

definition IndexedFileDb_ctor :: IndexedFileDb where
  "IndexedFileDb_ctor =
     (let db = \<lparr>file_path_to_file_id = [], file_id_to_file_path = []\<rparr>;
          db = db\<lparr>file_path_to_file_id := um_assign [] 0 (file_path_to_file_id db)\<rparr>;
          db = db\<lparr>file_id_to_file_path := um_assign 0 [] (file_id_to_file_path db)\<rparr>
      in db)"

text \<open>
  What \<open>clang_getSpellingLocation\<close> writes for a frontend location: the file (\<open>None\<close>
  for a null \<open>CXFile\<close>, else the path that \<open>clang_getFileName\<close> gives for it), the
  line and the column, both \<open>unsigned int\<close>. The offset is not used.
\<close>

record SpellingLocation =
  cx_file :: "string option"
  cx_line :: "32 word"
  cx_column :: "32 word"

text \<open>
  \<open>Resolve\<close>, lines 92-113. The local \<open>file_id\<close> is declared without an initialiser
  (line 97) and assigned only when the file is not null, so for a null file the
  constructor receives whatever the local held: the parameter \<open>uninit\<close>. The fresh id
  is \<open>size()\<close>, a \<open>size_t\<close> converted to \<open>FileId\<close>. Both maps are updated before the
  Location is constructed, so the database is returned also when the constructor's
  assertion fails.
\<close>

definition Resolve ::
  "IndexedFileDb \<Rightarrow> SpellingLocation \<Rightarrow> bool \<Rightarrow> FileId \<Rightarrow> (error + Location) \<times> IndexedFileDb" where
  "Resolve db cx_loc interesting' uninit =
     (case
        (case cx_file cx_loc of
           None \<Rightarrow> (uninit, db)
         | Some path \<Rightarrow>
             (case um_find (file_path_to_file_id db) path of
                Some it \<Rightarrow> (it, db)
              | None \<Rightarrow>
                  (let file_id' = word_of_nat (um_size (file_path_to_file_id db));
                       db = db\<lparr>file_path_to_file_id :=
                              um_assign path file_id' (file_path_to_file_id db)\<rparr>;
                       db = db\<lparr>file_id_to_file_path :=
                              um_assign file_id' path (file_id_to_file_path db)\<rparr>
                   in (file_id', db))))
      of (file_id', db') \<Rightarrow>
        (Location_ctor interesting' file_id' (cx_line cx_loc) (cx_column cx_loc), db'))"

text \<open>
  The states of the database that the constructor and \<open>Resolve\<close> produce: the paths
  are distinct, the empty path comes first with id 0, the ids are 0, 1, 2, ... in the
  order of interning, at most \<open>2 ^ 29\<close> of them (each was packed into a Location when
  it was assigned), and the second map holds the same bindings turned around.
\<close>

definition IndexedFileDb_inv :: "IndexedFileDb \<Rightarrow> bool" where
  "IndexedFileDb_inv db \<longleftrightarrow>
     (let p = file_path_to_file_id db
      in p \<noteq> [] \<and> fst (hd p) = [] \<and> distinct (map fst p) \<and>
         map snd p = map word_of_nat [0..<length p] \<and> length p \<le> 2 ^ 29 \<and>
         file_id_to_file_path db = map (\<lambda>(path, i). (i, path)) p)"

section \<open>Entity records (indexer.h, lines 130-301)\<close>

text \<open>
  A \<open>LocalId\<close> wraps a \<open>uint64_t\<close>, the position of a record in its vector. It is a
  natural number here: it is only ever made from the size of a vector.
  A \<open>Ref\<close> is an id with a Location.
\<close>

type_synonym TypeId = nat
type_synonym FuncId = nat
type_synonym VarId = nat

type_synonym FuncRef = "FuncId \<times> Location"

text \<open>
  The fields keep the names of the source behind a prefix for the struct, since the
  structs share field names and \<open>id\<close> and \<open>definition\<close> are taken in HOL.
\<close>

record TypeDefDefinitionData =
  t_id :: TypeId
  t_usr :: string
  t_short_name :: string
  t_qualified_name :: string
  t_definition :: "Location option"
  t_alias_of :: "TypeId option"
  t_parents :: "TypeId list"
  t_types :: "TypeId list"
  t_funcs :: "FuncId list"
  t_vars :: "VarId list"

record IndexedTypeDef =
  type_def :: TypeDefDefinitionData
  type_derived :: "TypeId list"
  type_uses :: "Location list"
  type_is_system_def :: bool

record FuncDefDefinitionData =
  f_id :: FuncId
  f_usr :: string
  f_short_name :: string
  f_qualified_name :: string
  f_definition :: "Location option"
  f_declaring_type :: "TypeId option"
  f_base :: "FuncId option"
  f_locals :: "VarId list"
  f_callees :: "FuncRef list"

record IndexedFuncDef =
  func_def :: FuncDefDefinitionData
  func_declarations :: "Location list"
  func_derived :: "FuncId list"
  func_callers :: "FuncRef list"
  func_uses :: "Location list"
  func_is_system_def :: bool

record VarDefDefinitionData =
  v_id :: VarId
  v_usr :: string
  v_short_name :: string
  v_qualified_name :: string
  v_declaration :: "Location option"
  v_definition :: "Location option"
  v_variable_type :: "TypeId option"
  v_declaring_type :: "TypeId option"

record IndexedVarDef =
  var_def :: VarDefDefinitionData
  var_uses :: "Location list"
  var_is_system_def :: bool

text \<open>
  The constructors. Members without an initialiser are default-constructed: empty
  strings and vectors, unset optionals. \<open>assert(usr.size() > 0)\<close> is the error
  \<open>InvariantViolated\<close>.
\<close>

text \<open>Line 199: no assertion.\<close>

definition TypeDefDefinitionData_ctor :: "TypeId \<Rightarrow> string \<Rightarrow> error + TypeDefDefinitionData" where
  "TypeDefDefinitionData_ctor id' usr =
     Inr \<lparr>t_id = id', t_usr = usr, t_short_name = [], t_qualified_name = [],
          t_definition = None, t_alias_of = None, t_parents = [], t_types = [],
          t_funcs = [], t_vars = []\<rparr>"

text \<open>Lines 238-240.\<close>

definition FuncDefDefinitionData_ctor :: "FuncId \<Rightarrow> string \<Rightarrow> error + FuncDefDefinitionData" where
  "FuncDefDefinitionData_ctor id' usr =
     (if length usr > 0
      then Inr \<lparr>f_id = id', f_usr = usr, f_short_name = [], f_qualified_name = [],
                f_definition = None, f_declaring_type = None, f_base = None,
                f_locals = [], f_callees = []\<rparr>
      else Inl InvariantViolated)"

text \<open>Lines 265-267: the member \<open>def\<close> is constructed first, then the body asserts.\<close>

definition IndexedFuncDef_ctor :: "FuncId \<Rightarrow> string \<Rightarrow> error + IndexedFuncDef" where
  "IndexedFuncDef_ctor id' usr =
     (case FuncDefDefinitionData_ctor id' usr of
        Inl e \<Rightarrow> Inl e
      | Inr d \<Rightarrow>
          if length usr > 0
          then Inr \<lparr>func_def = d, func_declarations = [], func_derived = [],
                    func_callers = [], func_uses = [], func_is_system_def = False\<rparr>
          else Inl InvariantViolated)"

text \<open>Line 287: no assertion.\<close>

definition VarDefDefinitionData_ctor :: "VarId \<Rightarrow> string \<Rightarrow> error + VarDefDefinitionData" where
  "VarDefDefinitionData_ctor id' usr =
     Inr \<lparr>v_id = id', v_usr = usr, v_short_name = [], v_qualified_name = [],
          v_declaration = None, v_definition = None, v_variable_type = None,
          v_declaring_type = None\<rparr>"

text \<open>Lines 298-300.\<close>

definition IndexedVarDef_ctor :: "VarId \<Rightarrow> string \<Rightarrow> error + IndexedVarDef" where
  "IndexedVarDef_ctor id' usr =
     (case VarDefDefinitionData_ctor id' usr of
        Inl e \<Rightarrow> Inl e
      | Inr d \<Rightarrow>
          if length usr > 0
          then Inr \<lparr>var_def = d, var_uses = [], var_is_system_def = False\<rparr>
          else Inl InvariantViolated)"

text \<open>
  Modelled from the spec: the constructor \<open>IndexedTypeDef(TypeId, usr)\<close> is declared
  at line 214 and defined outside the sources. The spec has a Type record accept an
  empty USR, so it constructs \<open>def\<close> and asserts nothing.
\<close>

definition IndexedTypeDef_ctor :: "TypeId \<Rightarrow> string \<Rightarrow> error + IndexedTypeDef" where
  "IndexedTypeDef_ctor id' usr =
     (case TypeDefDefinitionData_ctor id' usr of
        Inl e \<Rightarrow> Inl e
      | Inr d \<Rightarrow>
          Inr \<lparr>type_def = d, type_derived = [], type_uses = [],
               type_is_system_def = False\<rparr>)"

section \<open>IndexedFile: the record vectors and the USR tables (indexer.h, lines 304-331)\<close>

record IndexedFile =
  usr_to_type_id :: "(string, TypeId) unordered_map"
  usr_to_func_id :: "(string, FuncId) unordered_map"
  usr_to_var_id :: "(string, VarId) unordered_map"
  types :: "IndexedTypeDef list"
  funcs :: "IndexedFuncDef list"
  vars :: "IndexedVarDef list"
  file_db :: IndexedFileDb

text \<open>
  Modelled from the spec: the constructor \<open>IndexedFile()\<close> is declared at line 317
  and defined outside the sources. The spec: an IndexedFile is created empty, with the
  file table seeded so that the empty path maps to 0.
\<close>

definition IndexedFile_ctor :: IndexedFile where
  "IndexedFile_ctor =
     \<lparr>usr_to_type_id = [], usr_to_func_id = [], usr_to_var_id = [],
      types = [], funcs = [], vars = [], file_db = IndexedFileDb_ctor\<rparr>"

text \<open>
  \<open>ToTypeId\<close>, \<open>ToFuncId\<close> and \<open>ToVarId\<close> are declared at lines 319-321 and
  defined outside the sources. The spec: if the USR is present, return the existing
  id; else append a fresh record constructed with the length of the vector as id and
  the USR, and store the mapping. The records are built by the constructors above, so
  a failed assertion there is the result.
\<close>

text \<open>Modelled from the spec: \<open>ToTypeId\<close>, interning a USR among the types.\<close>

definition ToTypeId :: "IndexedFile \<Rightarrow> string \<Rightarrow> error + (TypeId \<times> IndexedFile)" where
  "ToTypeId f usr =
     (case um_find (usr_to_type_id f) usr of
        Some id' \<Rightarrow> Inr (id', f)
      | None \<Rightarrow>
          (let id' = length (types f)
           in case IndexedTypeDef_ctor id' usr of
                Inl e \<Rightarrow> Inl e
              | Inr r \<Rightarrow>
                  Inr (id', f\<lparr>types := types f @ [r],
                               usr_to_type_id := um_assign usr id' (usr_to_type_id f)\<rparr>)))"

text \<open>Modelled from the spec: \<open>ToFuncId\<close>, interning a USR among the functions.\<close>

definition ToFuncId :: "IndexedFile \<Rightarrow> string \<Rightarrow> error + (FuncId \<times> IndexedFile)" where
  "ToFuncId f usr =
     (case um_find (usr_to_func_id f) usr of
        Some id' \<Rightarrow> Inr (id', f)
      | None \<Rightarrow>
          (let id' = length (funcs f)
           in case IndexedFuncDef_ctor id' usr of
                Inl e \<Rightarrow> Inl e
              | Inr r \<Rightarrow>
                  Inr (id', f\<lparr>funcs := funcs f @ [r],
                               usr_to_func_id := um_assign usr id' (usr_to_func_id f)\<rparr>)))"

text \<open>Modelled from the spec: \<open>ToVarId\<close>, interning a USR among the variables.\<close>

definition ToVarId :: "IndexedFile \<Rightarrow> string \<Rightarrow> error + (VarId \<times> IndexedFile)" where
  "ToVarId f usr =
     (case um_find (usr_to_var_id f) usr of
        Some id' \<Rightarrow> Inr (id', f)
      | None \<Rightarrow>
          (let id' = length (vars f)
           in case IndexedVarDef_ctor id' usr of
                Inl e \<Rightarrow> Inl e
              | Inr r \<Rightarrow>
                  Inr (id', f\<lparr>vars := vars f @ [r],
                               usr_to_var_id := um_assign usr id' (usr_to_var_id f)\<rparr>)))"

text \<open>
  A USR table \<open>m\<close> agrees with a record vector whose USRs are \<open>usrs\<close> and whose ids
  are \<open>ids\<close>: the keys of \<open>m\<close> are distinct, every binding of \<open>m\<close> points at a record
  with that USR, every record is found under its USR at its own position, and the id
  of a record is its position.
\<close>

definition interned :: "(string, nat) unordered_map \<Rightarrow> string list \<Rightarrow> nat list \<Rightarrow> bool" where
  "interned m usrs ids \<longleftrightarrow>
     distinct (map fst m) \<and>
     list_all (\<lambda>(u, i). i < length usrs \<and> usrs ! i = u) m \<and>
     list_all (\<lambda>i. um_find m (usrs ! i) = Some i) [0..<length usrs] \<and>
     ids = [0..<length usrs]"

definition IndexedFile_inv :: "IndexedFile \<Rightarrow> bool" where
  "IndexedFile_inv f \<longleftrightarrow>
     interned (usr_to_type_id f) (map (\<lambda>r. t_usr (type_def r)) (types f))
       (map (\<lambda>r. t_id (type_def r)) (types f)) \<and>
     interned (usr_to_func_id f) (map (\<lambda>r. f_usr (func_def r)) (funcs f))
       (map (\<lambda>r. f_id (func_def r)) (funcs f)) \<and>
     interned (usr_to_var_id f) (map (\<lambda>r. v_usr (var_def r)) (vars f))
       (map (\<lambda>r. v_id (var_def r)) (vars f))"

section \<open>Usage insertion\<close>

text \<open>
  \<open>IndexedTypeDef::AddUsage\<close> is declared at line 215 (\<open>insert_if_not_present\<close>
  defaults to true) and defined outside the sources; the spec gives Func and Var the
  same insertion. The spec: search \<open>uses\<close> for an element equal to \<open>loc\<close> ignoring
  \<open>interesting\<close>; if one is found and it is not interesting but \<open>loc\<close> is, make it
  interesting; if none is found and \<open>insert_if_not_present\<close>, append \<open>loc\<close>; else
  do nothing.
\<close>

text \<open>Modelled from the spec: that rule on the vector \<open>uses\<close>.\<close>

fun add_usage :: "Location list \<Rightarrow> Location \<Rightarrow> bool \<Rightarrow> Location list" where
  "add_usage [] loc insert_if_not_present = (if insert_if_not_present then [loc] else [])"
| "add_usage (x # xs) loc insert_if_not_present =
     (if IsEqualTo x loc
      then (if interesting x = 0 \<and> interesting loc \<noteq> 0
            then WithInteresting x True # xs
            else x # xs)
      else x # add_usage xs loc insert_if_not_present)"

text \<open>Modelled from the spec: \<open>IndexedTypeDef::AddUsage\<close>.\<close>

definition AddUsage :: "IndexedTypeDef \<Rightarrow> Location \<Rightarrow> bool \<Rightarrow> IndexedTypeDef" where
  "AddUsage t loc insert_if_not_present =
     t\<lparr>type_uses := add_usage (type_uses t) loc insert_if_not_present\<rparr>"

text \<open>Modelled from the spec: the usage insertion of a Func record.\<close>

definition AddUsage_func :: "IndexedFuncDef \<Rightarrow> Location \<Rightarrow> bool \<Rightarrow> IndexedFuncDef" where
  "AddUsage_func t loc insert_if_not_present =
     t\<lparr>func_uses := add_usage (func_uses t) loc insert_if_not_present\<rparr>"

text \<open>Modelled from the spec: the usage insertion of a Var record.\<close>

definition AddUsage_var :: "IndexedVarDef \<Rightarrow> Location \<Rightarrow> bool \<Rightarrow> IndexedVarDef" where
  "AddUsage_var t loc insert_if_not_present =
     t\<lparr>var_uses := add_usage (var_uses t) loc insert_if_not_present\<rparr>"

text \<open>
  A sequence of calls, each with its \<open>loc\<close> and \<open>insert_if_not_present\<close>, applied in
  order to a vector of uses.
\<close>

fun add_usages :: "Location list \<Rightarrow> (Location \<times> bool) list \<Rightarrow> Location list" where
  "add_usages uses [] = uses"
| "add_usages uses ((loc, ins) # calls) = add_usages (add_usage uses loc ins) calls"

text \<open>The part of a Location that \<open>IsEqualTo\<close> compares.\<close>

definition position :: "Location \<Rightarrow> 64 word" where
  "position l = drop_bit 1 l"

text \<open>No two elements of the vector are equal ignoring \<open>interesting\<close>.\<close>

fun no_duplicate_uses :: "Location list \<Rightarrow> bool" where
  "no_duplicate_uses [] = True"
| "no_duplicate_uses (x # xs) = (\<not> list_ex (IsEqualTo x) xs \<and> no_duplicate_uses xs)"

section \<open>The request \<open>$ccls/vars\<close> (messages/ccls_vars.cc)\<close>

text \<open>
  The handler uses declarations that are outside the sources: the symbol kinds, the
  symbols \<open>SymbolRef\<close> found at a position (of which the handler reads \<open>usr\<close> and
  \<open>kind\<close>) and the definition of a variable (of which it reads \<open>type\<close>, a USR that is
  0 when the variable has no recorded type). A \<open>Usr\<close> is a 64-bit hash.
\<close>

type_synonym Usr = "64 word"

datatype Kind = Kind_Invalid | Kind_File | Kind_Type | Kind_Func | Kind_Var

record SymbolRef =
  sym_usr :: Usr
  sym_kind :: Kind

record QueryVar_Def =
  def_type :: Usr

text \<open>
  The loop of lines 40-59 over the symbols at the position. What the database answers
  is a parameter: \<open>AnyDef u\<close> is \<open>db->GetVar(sym).AnyDef()\<close> for a symbol with USR
  \<open>u\<close> (\<open>None\<close> for a null pointer), and \<open>locations u\<close> is the value of
  \<open>GetLsLocations(db, wfiles, GetVarDeclarations(db, db->Type(u).instances, param.kind))\<close>.
  \<open>continue\<close> and \<open>break\<close> (of the switch) both go on with the next symbol; the case
  \<open>Kind::Var\<close> falls through into \<open>Kind::Type\<close> with \<open>usr\<close> replaced by the type.
  The result is assigned, not appended.
\<close>

fun ccls_vars_loop ::
  "(Usr \<Rightarrow> QueryVar_Def option) \<Rightarrow> (Usr \<Rightarrow> 'loc list) \<Rightarrow> SymbolRef list \<Rightarrow> 'loc list \<Rightarrow> 'loc list" where
  "ccls_vars_loop AnyDef locations [] result = result"
| "ccls_vars_loop AnyDef locations (sym' # syms) result =
     (let usr = sym_usr sym'
      in case sym_kind sym' of
           Kind_Var \<Rightarrow>
             (case AnyDef (sym_usr sym') of
                None \<Rightarrow> ccls_vars_loop AnyDef locations syms result
              | Some def \<Rightarrow>
                  if def_type def = 0 then ccls_vars_loop AnyDef locations syms result
                  else (let usr = def_type def
                        in ccls_vars_loop AnyDef locations syms (locations usr)))
         | Kind_Type \<Rightarrow> ccls_vars_loop AnyDef locations syms (locations usr)
         | _ \<Rightarrow> ccls_vars_loop AnyDef locations syms result)"

text \<open>
  \<open>MessageHandler::ccls_vars\<close>, lines 31-61: without a file (\<open>FindFile\<close> failed)
  the handler returns without a reply of its own, \<open>None\<close>; else it replies with the
  result of the loop, which starts empty. \<open>syms\<close> is the value of
  \<open>FindSymbolsAtLocation\<close> for the position of the request.
\<close>

definition ccls_vars ::
  "(Usr \<Rightarrow> QueryVar_Def option) \<Rightarrow> (Usr \<Rightarrow> 'loc list) \<Rightarrow> bool \<Rightarrow> SymbolRef list \<Rightarrow> 'loc list option" where
  "ccls_vars AnyDef locations file_found syms =
     (if \<not> file_found then None
      else Some (ccls_vars_loop AnyDef locations syms []))"

text \<open>
  A variable symbol without a definition or without a recorded type, and the symbols
  that assign the result: type symbols and variable symbols with a recorded type.
  \<open>target\<close> is the USR whose instances such a symbol reports.
\<close>

definition skipped :: "(Usr \<Rightarrow> QueryVar_Def option) \<Rightarrow> SymbolRef \<Rightarrow> bool" where
  "skipped AnyDef sym' \<longleftrightarrow>
     sym_kind sym' = Kind_Var \<and>
     (case AnyDef (sym_usr sym') of None \<Rightarrow> True | Some def \<Rightarrow> def_type def = 0)"

definition target :: "(Usr \<Rightarrow> QueryVar_Def option) \<Rightarrow> SymbolRef \<Rightarrow> Usr option" where
  "target AnyDef sym' =
     (case sym_kind sym' of
        Kind_Type \<Rightarrow> Some (sym_usr sym')
      | Kind_Var \<Rightarrow>
          (case AnyDef (sym_usr sym') of
             None \<Rightarrow> None
           | Some def \<Rightarrow> if def_type def = 0 then None else Some (def_type def))
      | _ \<Rightarrow> None)"


section \<open>Properties of Location\<close>

lemma Maximum_mask: "Maximum n = mask n"
  unfolding Maximum_def by (simp add: mask_eq_exp_minus_1 push_bit_eq_mult)

lemma member_get_take_drop: "member_get s n v = take_bit n (drop_bit s v)"
  by (simp add: member_get_def Maximum_mask take_bit_eq_mask)

lemma bit_member_get: "bit (member_get s n v) k \<longleftrightarrow> k < n \<and> bit v (s + k)"
  by (simp add: member_get_take_drop bit_take_bit_iff bit_drop_bit_eq)

lemma bit_word64_high: "64 \<le> k \<Longrightarrow> \<not> bit (a :: 64 word) k"
  by (auto dest: bit_imp_le_length)

lemma fits_uint: "v \<le> Maximum n \<longleftrightarrow> uint v < 2 ^ n"
proof -
  have "v \<le> Maximum n \<longleftrightarrow> uint v \<le> mask (min 64 n)"
    by (simp add: Maximum_mask word_le_def uint_mask_eq)
  also have "\<dots> \<longleftrightarrow> uint v < 2 ^ min 64 n"
    by (simp add: mask_eq_exp_minus_1)
  also have "\<dots> \<longleftrightarrow> uint v < 2 ^ n"
  proof (cases "n \<le> 64")
    case True
    then show ?thesis by (simp add: min_def)
  next
    case False
    then have "(2::int) ^ 64 \<le> 2 ^ n" by (intro power_increasing) simp_all
    moreover have "uint v < 2 ^ 64" using uint_bounded [of v] by simp
    ultimately show ?thesis using False by (simp add: min_def)
  qed
  finally show ?thesis .
qed

lemma fits_unat: "v \<le> Maximum n \<longleftrightarrow> unat v < 2 ^ n"
proof -
  have "uint v < 2 ^ n \<longleftrightarrow> int (unat v) < int (2 ^ n)" by simp
  also have "\<dots> \<longleftrightarrow> unat v < 2 ^ n" by (simp only: of_nat_less_iff)
  finally show ?thesis by (simp only: fits_uint)
qed

lemma fits_bits: "v \<le> Maximum n \<Longrightarrow> bit v k \<Longrightarrow> k < n"
proof -
  assume "v \<le> Maximum n" and b: "bit v k"
  then have "v AND mask n = v"
    by (simp add: fits_uint mask_eq_iff)
  then have "bit (v AND mask n) k" using b by simp
  then show "k < n" by (simp add: bit_and_iff bit_mask_iff)
qed

lemma bit_stored:
  "bit ((w AND NOT (Mask s n)) OR push_bit s v :: 64 word) k \<longleftrightarrow>
     (bit w k \<and> \<not> (s \<le> k \<and> k - s < n)) \<or> (s \<le> k \<and> k < 64 \<and> bit v (k - s))"
  by (auto simp add: Mask_def Maximum_mask bit_or_iff bit_and_iff bit_not_iff
        bit_push_bit_iff bit_mask_iff dest: bit_imp_le_length)

lemma member_get_stored_same:
  assumes "v \<le> Maximum n" and "s + n \<le> 64"
  shows "member_get s n ((w AND NOT (Mask s n)) OR push_bit s v) = v"
proof (rule bit_eqI)
  fix k
  show "bit (member_get s n ((w AND NOT (Mask s n)) OR push_bit s v)) k = bit v k"
    using assms fits_bits [of v n k] by (auto simp add: bit_member_get bit_stored)
qed

lemma member_get_stored_other:
  assumes "s' + n' \<le> s \<or> s + n \<le> s'" and that: "v \<le> Maximum n"
  shows "member_get s' n' ((w AND NOT (Mask s n)) OR push_bit s v) = member_get s' n' w"
proof (rule bit_eqI)
  fix k
  show "bit (member_get s' n' ((w AND NOT (Mask s n)) OR push_bit s v)) k
          = bit (member_get s' n' w) k"
    using assms that fits_bits [of v n "s' + k - s"]
    by (auto simp add: bit_member_get bit_stored)
qed

lemma member_set_fits:
  "v \<le> Maximum n \<Longrightarrow> member_set s n w v = Inr ((w AND NOT (Mask s n)) OR push_bit s v)"
  by (simp add: member_set_def)

lemma member_set_overflow: "\<not> v \<le> Maximum n \<Longrightarrow> member_set s n w v = Inl CapacityExceeded"
  by (simp add: member_set_def)

lemma of_bool_fits: "(of_bool b :: 64 word) \<le> Maximum 1"
  by (cases b) (simp_all add: Maximum_mask)

lemma member_set_bool:
  "member_set 0 1 w (of_bool b) = Inr ((w AND NOT (Mask 0 1)) OR push_bit 0 (of_bool b))"
  by (rule member_set_fits [OF of_bool_fits])

lemma Location_ctor_from_overflow:
  assumes "\<not> (f \<le> Maximum 29 \<and> ucast l \<le> Maximum 20 \<and> ucast c \<le> Maximum 14)"
  shows "Location_ctor_from w i f l c = Inl CapacityExceeded"
  using assms
  by (auto simp add: Location_ctor_from_def member_set_bool member_set_def)

lemma Location_ctor_from_fits:
  assumes f: "f \<le> Maximum 29" and l: "ucast l \<le> Maximum 20" and c: "ucast c \<le> Maximum 14"
  shows "\<exists>loc. Location_ctor_from w i f l c = Inr loc \<and> interesting loc = of_bool i \<and>
           file_id loc = f \<and> line loc = ucast l \<and> column loc = ucast c"
proof -
  define w1 where "w1 = (w AND NOT (Mask 0 1)) OR push_bit 0 (of_bool i)"
  define w2 where "w2 = (w1 AND NOT (Mask 1 29)) OR push_bit 1 f"
  define w3 where "w3 = (w2 AND NOT (Mask 30 20)) OR push_bit 30 (ucast l)"
  define w4 where "w4 = (w3 AND NOT (Mask 50 14)) OR push_bit 50 (ucast c)"
  have r: "Location_ctor_from w i f l c = Inr w4"
    unfolding Location_ctor_from_def w4_def w3_def w2_def w1_def
    by (simp only: member_set_bool member_set_fits [OF f] member_set_fits [OF l]
        member_set_fits [OF c] sum.case)
  have i1: "member_get 0 1 w1 = of_bool i"
    unfolding w1_def by (rule member_get_stored_same [OF of_bool_fits]) simp
  have i2: "member_get 0 1 w2 = member_get 0 1 w1"
    unfolding w2_def by (rule member_get_stored_other [OF _ f]) simp
  have i3: "member_get 0 1 w3 = member_get 0 1 w2"
    unfolding w3_def by (rule member_get_stored_other [OF _ l]) simp
  have i4: "member_get 0 1 w4 = member_get 0 1 w3"
    unfolding w4_def by (rule member_get_stored_other [OF _ c]) simp
  have f2: "member_get 1 29 w2 = f"
    unfolding w2_def by (rule member_get_stored_same [OF f]) simp
  have f3: "member_get 1 29 w3 = member_get 1 29 w2"
    unfolding w3_def by (rule member_get_stored_other [OF _ l]) simp
  have f4: "member_get 1 29 w4 = member_get 1 29 w3"
    unfolding w4_def by (rule member_get_stored_other [OF _ c]) simp
  have l3: "member_get 30 20 w3 = ucast l"
    unfolding w3_def by (rule member_get_stored_same [OF l]) simp
  have l4: "member_get 30 20 w4 = member_get 30 20 w3"
    unfolding w4_def by (rule member_get_stored_other [OF _ c]) simp
  have c4: "member_get 50 14 w4 = ucast c"
    unfolding w4_def by (rule member_get_stored_same [OF c]) simp
  show ?thesis
    using r i1 i2 i3 i4 f2 f3 f4 l3 l4 c4
    by (simp add: interesting_def file_id_def line_def column_def)
qed

lemma IsEqualTo_bits: "IsEqualTo a b \<longleftrightarrow> (\<forall>k. bit a (Suc k) = bit b (Suc k))"
proof -
  have "IsEqualTo a b \<longleftrightarrow> (\<forall>k. bit (drop_bit 1 a) k = bit (drop_bit 1 b) k)"
    unfolding IsEqualTo_def by (auto intro: bit_eqI)
  also have "\<dots> \<longleftrightarrow> (\<forall>k. bit a (Suc k) = bit b (Suc k))"
    by (simp add: bit_drop_bit_eq)
  finally show ?thesis .
qed

lemma fields_bits:
  "file_id a = file_id b \<and> line a = line b \<and> column a = column b
     \<longleftrightarrow> (\<forall>k. bit a (Suc k) = bit b (Suc k))"
proof
  assume r: "file_id a = file_id b \<and> line a = line b \<and> column a = column b"
  show "\<forall>k. bit a (Suc k) = bit b (Suc k)"
  proof
    fix k :: nat
    consider "k < 29" | "29 \<le> k" "k < 49" | "49 \<le> k" "k < 63" | "63 \<le> k" by linarith
    then show "bit a (Suc k) = bit b (Suc k)"
    proof cases
      case 1
      from r have "bit (file_id a) k = bit (file_id b) k" by simp
      with 1 show ?thesis by (simp add: file_id_def bit_member_get)
    next
      case 2
      from r have "bit (line a) (k - 29) = bit (line b) (k - 29)" by simp
      moreover from 2 have "k - 29 < 20" "30 + (k - 29) = Suc k" by arith+
      ultimately show ?thesis by (simp add: line_def bit_member_get)
    next
      case 3
      from r have "bit (column a) (k - 49) = bit (column b) (k - 49)" by simp
      moreover from 3 have "k - 49 < 14" "50 + (k - 49) = Suc k" by arith+
      ultimately show ?thesis by (simp add: column_def bit_member_get)
    next
      case 4
      then show ?thesis by (simp add: bit_word64_high)
    qed
  qed
next
  assume h: "\<forall>k. bit a (Suc k) = bit b (Suc k)"
  have f: "file_id a = file_id b"
    unfolding file_id_def by (rule bit_eqI) (simp add: bit_member_get h)
  have "bit a (30 + k) = bit b (30 + k)" for k
    using h [rule_format, of "29 + k"] by simp
  then have l: "line a = line b"
    unfolding line_def by (intro bit_eqI) (simp add: bit_member_get)
  have "bit a (50 + k) = bit b (50 + k)" for k
    using h [rule_format, of "49 + k"] by simp
  then have c: "column a = column b"
    unfolding column_def by (intro bit_eqI) (simp add: bit_member_get)
  from f l c show "file_id a = file_id b \<and> line a = line b \<and> column a = column b"
    by simp
qed

lemma fields_determine:
  assumes "interesting a = interesting b" and "file_id a = file_id b"
    and "line a = line b" and "column a = column b"
  shows "a = b"
proof (rule bit_eqI)
  fix k
  from assms have h: "\<And>j. bit a (Suc j) = bit b (Suc j)"
    using fields_bits [of a b] by simp
  from assms(1) have "bit (interesting a) 0 = bit (interesting b) 0" by simp
  then have z: "bit a 0 = bit b 0"
    by (simp add: interesting_def bit_member_get)
  show "bit a k = bit b k"
    using h z by (cases k) simp_all
qed

lemma Location_ctor_from_storage: "Location_ctor_from w i f l c = Location_ctor_from 0 i f l c"
proof (cases "f \<le> Maximum 29 \<and> ucast l \<le> Maximum 20 \<and> ucast c \<le> Maximum 14")
  case True
  then have t: "f \<le> Maximum 29" "ucast l \<le> Maximum 20" "ucast c \<le> Maximum 14"
    by simp_all
  from Location_ctor_from_fits [OF t, of w i] obtain a where
    a: "Location_ctor_from w i f l c = Inr a" "interesting a = of_bool i"
      "file_id a = f" "line a = ucast l" "column a = ucast c"
    by blast
  from Location_ctor_from_fits [OF t, of 0 i] obtain b where
    b: "Location_ctor_from 0 i f l c = Inr b" "interesting b = of_bool i"
      "file_id b = f" "line b = ucast l" "column b = ucast c"
    by blast
  have "a = b" by (rule fields_determine) (simp_all only: a b)
  then show ?thesis by (simp only: a(1) b(1))
next
  case False
  then show ?thesis
    using Location_ctor_from_overflow [of f l c w i] Location_ctor_from_overflow [of f l c 0 i]
    by simp
qed

lemma ucast_32_64_unat: "unat (ucast (x :: 32 word) :: 64 word) = unat x"
  by transfer simp

lemma interesting_cases: "interesting l = 0 \<or> interesting l = 1"
proof -
  have "interesting l = take_bit 1 l"
    by (simp add: interesting_def member_get_take_drop)
  also have "\<dots> = l mod 2"
    by (simp add: take_bit_eq_mod)
  also have "\<dots> = of_bool (odd l)"
    by (simp add: mod_2_eq_odd)
  finally show ?thesis by (cases "odd l") simp_all
qed

subsection \<open>Decimal digits\<close>

lemma of_char_digit: "d < 10 \<Longrightarrow> (of_char (char_of (48 + d)) :: nat) = 48 + d"
  by simp

lemma is_digit_char_of: "d < 10 \<Longrightarrow> is_digit (char_of (48 + (d :: nat)))"
  by (simp add: is_digit_def of_char_digit)

lemma not_digit_colon: "\<not> is_digit CHR '':''"
  by (simp add: is_digit_def)

lemma not_digit_star: "\<not> is_digit CHR ''*''"
  by (simp add: is_digit_def)

lemma to_string_digits: "list_all is_digit (to_string n)"
proof (induction n rule: to_string.induct)
  case (1 n)
  show ?case
  proof (cases "n < 10")
    case True
    then show ?thesis by (subst to_string.simps) (simp add: is_digit_char_of)
  next
    case False
    with 1 show ?thesis by (subst to_string.simps) (simp add: is_digit_char_of)
  qed
qed

lemma to_string_nonempty: "to_string n \<noteq> []"
  by (subst to_string.simps) simp

lemma digits_value_snoc:
  "digits_value (ds @ [c]) = 10 * digits_value ds + ((of_char c :: nat) - 48)"
  by (simp add: digits_value_def)

lemma digits_value_to_string: "digits_value (to_string n) = n"
proof (induction n rule: to_string.induct)
  case (1 n)
  show ?case
  proof (cases "n < 10")
    case True
    then show ?thesis
      by (subst to_string.simps) (simp add: digits_value_def of_char_digit)
  next
    case False
    with 1 have "digits_value (to_string (n div 10)) = n div 10" by simp
    with False show ?thesis
      by (subst to_string.simps) (simp add: digits_value_snoc of_char_digit)
  qed
qed

lemma parse_number_to_string:
  assumes "rest = [] \<or> \<not> is_digit (hd rest)"
  shows "parse_number (to_string n @ rest) = Some (n, rest)"
proof -
  have d: "\<forall>c \<in> set (to_string n). is_digit c"
    using to_string_digits [of n] by (simp add: list_all_iff)
  have r: "takeWhile is_digit rest = []" "dropWhile is_digit rest = rest"
    using assms by (cases rest; simp)+
  from d have "takeWhile is_digit (to_string n @ rest) = to_string n"
    by (simp add: r)
  moreover from d have "dropWhile is_digit (to_string n @ rest) = rest"
    by (simp add: r)
  ultimately show ?thesis
    by (simp add: parse_number_def to_string_nonempty digits_value_to_string)
qed

lemma strip_star_to_string: "strip_star (to_string n @ rest) = (False, to_string n @ rest)"
proof -
  obtain c cs where s: "to_string n = c # cs"
    using to_string_nonempty [of n] by (cases "to_string n") simp_all
  with to_string_digits [of n] have "is_digit c" by simp
  then have "c \<noteq> CHR ''*''" using not_digit_star by auto
  with s show ?thesis by simp
qed

lemma ToString_unfold:
  "ToString l = (if interesting l \<noteq> 0 then [CHR ''*''] else []) @
     to_string (unat (file_id l)) @ CHR '':'' #
     to_string (unat (line l)) @ CHR '':'' # to_string (unat (column l))"
  by (simp add: ToString_def Let_def)

lemma member_get_fits: "member_get s n v \<le> Maximum n"
  unfolding member_get_def by (rule word_and_le1)

lemma member_get_unat: "unat (member_get s n v) < 2 ^ n"
  using member_get_fits [of s n v] by (simp only: fits_unat)

lemma ucast_64_32_64:
  assumes "unat (v :: 64 word) < 2 ^ 32"
  shows "(ucast (ucast v :: 32 word) :: 64 word) = v"
proof (rule bit_eqI)
  fix k
  have "v \<le> Maximum 32" using assms by (simp only: fits_unat)
  then have "bit v k \<Longrightarrow> k < 32" by (rule fits_bits)
  then show "bit (ucast (ucast v :: 32 word) :: 64 word) k = bit v k"
    by (auto simp add: bit_ucast_iff dest: bit_imp_le_length)
qed

lemma Location_ctor_from_eq:
  assumes t: "f \<le> Maximum 29" "ucast l \<le> Maximum 20" "ucast c \<le> Maximum 14"
    and x: "interesting x = of_bool i" "file_id x = f" "line x = ucast l" "column x = ucast c"
  shows "Location_ctor_from w i f l c = Inr x"
proof -
  from Location_ctor_from_fits [OF t, of w i] obtain a where
    a: "Location_ctor_from w i f l c = Inr a" "interesting a = of_bool i"
      "file_id a = f" "line a = ucast l" "column a = ucast c"
    by blast
  have "a = x" by (rule fields_determine) (simp_all only: a x)
  then show ?thesis by (simp only: a(1))
qed

lemma interesting_of_bool: "interesting x = of_bool (interesting x \<noteq> 0)"
proof (cases "interesting x = 0")
  case True
  then show ?thesis by simp
next
  case False
  with interesting_cases [of x] have "interesting x = 1" by simp
  then show ?thesis by simp
qed

lemma Location_ctor_fields:
  "Location_ctor (interesting x \<noteq> 0) (file_id x)
     (ucast (line x)) (ucast (column x)) = Inr x"
proof -
  have "unat (line x) < 2 ^ 20" unfolding line_def by (rule member_get_unat)
  then have "unat (line x) < 2 ^ 32" by simp
  then have l: "(ucast (ucast (line x) :: 32 word) :: 64 word) = line x"
    by (rule ucast_64_32_64)
  have "unat (column x) < 2 ^ 14" unfolding column_def by (rule member_get_unat)
  then have "unat (column x) < 2 ^ 32" by simp
  then have c: "(ucast (ucast (column x) :: 32 word) :: 64 word) = column x"
    by (rule ucast_64_32_64)
  have t1: "file_id x \<le> Maximum 29" unfolding file_id_def by (rule member_get_fits)
  have t2: "(ucast (ucast (line x) :: 32 word) :: 64 word) \<le> Maximum 20"
    unfolding l unfolding line_def by (rule member_get_fits)
  have t3: "(ucast (ucast (column x) :: 32 word) :: 64 word) \<le> Maximum 14"
    unfolding c unfolding column_def by (rule member_get_fits)
  show ?thesis
    unfolding Location_ctor_def
    by (rule Location_ctor_from_eq [OF t1 t2 t3 interesting_of_bool refl l [symmetric]
          c [symmetric]])
qed

lemma parse_fields_to_string:
  "parse_fields (to_string f @ CHR '':'' # to_string l @ CHR '':'' # to_string c)
     = Some (f, l, c)"
proof -
  have p1: "parse_number (to_string f @ CHR '':'' # to_string l @ CHR '':'' # to_string c)
     = Some (f, CHR '':'' # to_string l @ CHR '':'' # to_string c)"
    by (rule parse_number_to_string) (simp add: not_digit_colon)
  have p2: "parse_number (to_string l @ CHR '':'' # to_string c)
     = Some (l, CHR '':'' # to_string c)"
    by (rule parse_number_to_string) (simp add: not_digit_colon)
  have p3: "parse_number (to_string c) = Some (c, [])"
    using parse_number_to_string [of "[]" c] by simp
  show ?thesis
    by (simp add: parse_fields_def p1 p2 p3)
qed

lemma checked_location_fields:
  "checked_location (interesting x \<noteq> 0) (unat (file_id x)) (unat (line x))
     (unat (column x)) = Some x"
proof -
  have "unat (file_id x) < 2 ^ 29" unfolding file_id_def by (rule member_get_unat)
  then have b1: "\<not> 2 ^ 64 \<le> unat (file_id x)" by simp
  have "unat (line x) < 2 ^ 20" unfolding line_def by (rule member_get_unat)
  then have b2: "\<not> 2 ^ 32 \<le> unat (line x)" by simp
  have "unat (column x) < 2 ^ 14" unfolding column_def by (rule member_get_unat)
  then have b3: "\<not> 2 ^ 32 \<le> unat (column x)" by simp
  have w: "(word_of_nat (unat (file_id x)) :: 64 word) = file_id x"
    "(word_of_nat (unat (line x)) :: 32 word) = ucast (line x)"
    "(word_of_nat (unat (column x)) :: 32 word) = ucast (column x)"
    by simp_all
  show ?thesis
    unfolding checked_location_def
    by (simp only: b1 b2 b3 w Location_ctor_fields simp_thms if_False sum.case)
qed

lemma strip_star_ToString:
  "strip_star (ToString x) = (interesting x \<noteq> 0,
     to_string (unat (file_id x)) @ CHR '':'' #
     to_string (unat (line x)) @ CHR '':'' # to_string (unat (column x)))"
proof (cases "interesting x \<noteq> 0")
  case True
  then show ?thesis by (simp add: ToString_unfold)
next
  case False
  then show ?thesis
    by (simp only: ToString_unfold if_False append_Nil strip_star_to_string)
qed

subsection \<open>Claims about Location\<close>

lemma bit_clear_low: "bit (a AND NOT 1 :: 64 word) k \<longleftrightarrow> bit a k \<and> k \<noteq> 0"
  by (cases "k < 64") (auto simp add: bit_and_iff bit_not_iff bit_1_iff dest: bit_imp_le_length)

lemma IsEqualTo_masked: "IsEqualTo a b \<longleftrightarrow> a AND NOT 1 = b AND NOT 1"
proof
  assume "IsEqualTo a b"
  then have h: "\<And>k. bit a (Suc k) = bit b (Suc k)" by (simp add: IsEqualTo_bits)
  show "a AND NOT 1 = b AND NOT 1"
  proof (rule bit_eqI)
    fix k
    show "bit (a AND NOT 1) k = bit (b AND NOT 1) k"
      unfolding bit_clear_low using h by (cases k) simp_all
  qed
next
  assume e: "a AND NOT 1 = b AND NOT 1"
  have "bit a (Suc k) = bit b (Suc k)" for k
  proof -
    from e have "bit (a AND NOT 1) (Suc k) = bit (b AND NOT 1) (Suc k)"
      by (simp only:)
    then show ?thesis unfolding bit_clear_low by simp
  qed
  then show "IsEqualTo a b" by (simp add: IsEqualTo_bits)
qed

text \<open>
  Claim C6. \<open>a.IsEqualTo(b)\<close> holds exactly when \<open>a\<close> and \<open>b\<close> agree on
  \<open>file_id\<close>, \<open>line\<close> and \<open>column\<close>; the member \<open>interesting\<close> plays no part:
  the comparison is that of the two values with only bit 0 cleared.
\<close>

theorem IsEqualTo_ignores_interesting:
  "(IsEqualTo a b \<longleftrightarrow> file_id a = file_id b \<and> line a = line b \<and> column a = column b)
   \<and> (IsEqualTo a b \<longleftrightarrow> a AND NOT 1 = b AND NOT 1)"
  by (simp only: IsEqualTo_bits fields_bits IsEqualTo_masked [symmetric] simp_thms)

lemma fits_ucast32: "(ucast (l :: 32 word) :: 64 word) \<le> Maximum n \<longleftrightarrow> unat l < 2 ^ n"
  by (simp only: fits_unat ucast_32_64_unat)

text \<open>
  Claim C2. The constructor \<open>Location(interesting, file_id, line, column)\<close> checks
  that each argument fits its member (1, 29, 20 and 14 bits). It fails with
  \<open>CapacityExceeded\<close> exactly when \<open>file_id\<close>, \<open>line\<close> or \<open>column\<close> is out of
  range (a \<open>bool\<close> always fits one bit); when it succeeds, every member reads back as
  the argument given, so no value is ever wrapped.
\<close>

theorem Location_ctor_asserts_widths:
  "(case Location_ctor i f l c of
      Inl e \<Rightarrow> e = CapacityExceeded \<and>
        (2 ^ 29 \<le> unat f \<or> 2 ^ 20 \<le> unat l \<or> 2 ^ 14 \<le> unat c)
    | Inr loc \<Rightarrow> unat f < 2 ^ 29 \<and> unat l < 2 ^ 20 \<and> unat c < 2 ^ 14 \<and>
        interesting loc = of_bool i \<and> file_id loc = f \<and>
        unat (line loc) = unat l \<and> unat (column loc) = unat c)"
proof (cases "f \<le> Maximum 29 \<and> ucast l \<le> Maximum 20 \<and> ucast c \<le> Maximum 14")
  case True
  then have t: "f \<le> Maximum 29" "ucast l \<le> Maximum 20" "ucast c \<le> Maximum 14"
    by simp_all
  from Location_ctor_from_fits [OF t, of 0 i] obtain loc where
    a: "Location_ctor i f l c = Inr loc" "interesting loc = of_bool i"
      "file_id loc = f" "line loc = ucast l" "column loc = ucast c"
    unfolding Location_ctor_def by blast
  from t have "unat f < 2 ^ 29" "unat l < 2 ^ 20" "unat c < 2 ^ 14"
    by (simp_all only: fits_unat [of f] fits_ucast32)
  then show ?thesis
    by (simp only: a sum.case ucast_32_64_unat simp_thms)
next
  case False
  then have "Location_ctor i f l c = Inl CapacityExceeded"
    unfolding Location_ctor_def by (rule Location_ctor_from_overflow)
  moreover from False have "2 ^ 29 \<le> unat f \<or> 2 ^ 20 \<le> unat l \<or> 2 ^ 14 \<le> unat c"
    by (simp only: fits_unat [of f] fits_ucast32 de_Morgan_conj not_less)
  ultimately show ?thesis by (simp only: sum.case simp_thms)
qed

lemma hd_ToString: "hd (ToString l) = CHR ''*'' \<longleftrightarrow> interesting l \<noteq> 0"
proof (cases "interesting l \<noteq> 0")
  case True
  then show ?thesis by (simp add: ToString_unfold)
next
  case False
  obtain c cs where s: "to_string (unat (file_id l)) = c # cs"
    using to_string_nonempty [of "unat (file_id l)"]
    by (cases "to_string (unat (file_id l))") simp_all
  with to_string_digits [of "unat (file_id l)"] have "is_digit c" by simp
  then have "c \<noteq> CHR ''*''" using not_digit_star by auto
  with s False show ?thesis by (simp add: ToString_unfold)
qed

lemma interesting_bit: "interesting l \<noteq> 0 \<longleftrightarrow> bit l 0"
proof -
  have "interesting l = take_bit 1 l"
    by (simp add: interesting_def member_get_take_drop)
  also have "\<dots> = l mod 2"
    by (simp add: take_bit_eq_mod)
  also have "\<dots> = of_bool (odd l)"
    by (simp add: mod_2_eq_odd)
  finally show ?thesis by (cases "odd l") (simp_all add: bit_0)
qed

text \<open>
  Claim C8. \<open>ToString\<close> yields a \<open>*\<close> exactly when the bit \<open>interesting\<close> is set,
  followed by \<open>file_id\<close>, \<open>line\<close> and \<open>column\<close> separated by colons, each as the
  decimal numeral of its value: a non-empty string of digits whose value is the number.
\<close>

theorem ToString_format:
  "ToString l =
     (if bit l 0 then ''*'' else []) @ to_string (unat (file_id l)) @ '':'' @
       to_string (unat (line l)) @ '':'' @ to_string (unat (column l))
   \<and> (hd (ToString l) = CHR ''*'' \<longleftrightarrow> bit l 0)
   \<and> (interesting l \<noteq> 0 \<longleftrightarrow> bit l 0)
   \<and> (\<forall>n. to_string n \<noteq> [] \<and> list_all is_digit (to_string n) \<and>
          digits_value (to_string n) = n)"
proof (intro conjI allI)
  show "ToString l =
     (if bit l 0 then ''*'' else []) @ to_string (unat (file_id l)) @ '':'' @
       to_string (unat (line l)) @ '':'' @ to_string (unat (column l))"
    by (simp add: ToString_unfold interesting_bit)
  show "hd (ToString l) = CHR ''*'' \<longleftrightarrow> bit l 0"
    by (simp only: hd_ToString interesting_bit)
  show "interesting l \<noteq> 0 \<longleftrightarrow> bit l 0"
    by (rule interesting_bit)
qed (simp_all only: to_string_nonempty to_string_digits digits_value_to_string
    not_False_eq_True)

text \<open>
  Claim C7. Reading the text that \<open>ToString\<close> writes gives the Location back. Every
  64-bit value is a Location (the four members cover all bits), so there is no side
  condition.
\<close>

theorem from_string_ToString: "from_string (ToString x) = Some x"
  unfolding from_string_def
  by (simp only: strip_star_ToString prod.case parse_fields_to_string option.case
      checked_location_fields)

section \<open>Properties of IndexedFileDb\<close>

lemma Resolve_null:
  "Resolve db \<lparr>cx_file = None, cx_line = l, cx_column = c\<rparr> i uninit
     = (Location_ctor i uninit l c, db)"
  by (simp add: Resolve_def)

lemma Location_ctor_7: "\<exists>loc. Location_ctor False 7 0 0 = Inr loc \<and> file_id loc = 7"
proof -
  have t: "(7 :: 64 word) \<le> Maximum 29" "ucast (0 :: 32 word) \<le> Maximum 20"
    "ucast (0 :: 32 word) \<le> Maximum 14"
    by (simp_all add: fits_unat)
  from Location_ctor_from_fits [OF t, of 0 False] show ?thesis
    unfolding Location_ctor_def by blast
qed

text \<open>
  Claim C1. For a frontend location without a file, \<open>Resolve\<close> does not assign
  \<open>file_id\<close>: the Location is built from what the uninitialised local held, and the
  database is left as it was. When the local held 7, the Location has \<open>file_id\<close> 7,
  not the id 0 that the constructor of the database reserves for the unknown file.
\<close>

theorem Resolve_null_file_packs_uninitialised_id:
  "Resolve db \<lparr>cx_file = None, cx_line = l, cx_column = c\<rparr> i uninit
     = (Location_ctor i uninit l c, db) \<and>
   (\<exists>loc. fst (Resolve IndexedFileDb_ctor \<lparr>cx_file = None, cx_line = 0, cx_column = 0\<rparr>
              False 7) = Inr loc \<and> file_id loc = 7 \<and> file_id loc \<noteq> 0)"
  using Location_ctor_7 by (auto simp add: Resolve_null)


subsection \<open>Hash maps\<close>

lemma um_find_assign: "um_find (um_assign k v m) = (um_find m)(k \<mapsto> v)"
  by (rule ext) (simp add: um_find_def um_assign_def update_conv')

lemma um_assign_new: "um_find m k = None \<Longrightarrow> um_assign k v m = m @ [(k, v)]"
  unfolding um_find_def um_assign_def
  by (induction m) (auto split: if_splits)

lemma um_size_distinct: "distinct (map fst m) \<Longrightarrow> um_size m = length m"
  by (simp add: um_size_def distinct_remdups_id)

lemma um_find_None_iff: "um_find m k = None \<longleftrightarrow> k \<notin> fst ` set m"
  by (simp add: um_find_def map_of_eq_None_iff)

subsection \<open>File ids\<close>

lemma unat_file_id_of_nat: "n \<le> 2 ^ 29 \<Longrightarrow> unat (word_of_nat n :: 64 word) = n"
proof -
  assume "n \<le> 2 ^ 29"
  then have "n < 2 ^ 64" by (rule le_less_trans) simp
  then show ?thesis by (simp add: unat_of_nat take_bit_nat_eq_self)
qed

lemma IndexedFileDb_inv_ctor: "IndexedFileDb_inv IndexedFileDb_ctor"
  by (simp add: IndexedFileDb_inv_def IndexedFileDb_ctor_def um_assign_def Let_def)

lemma inv_ids_below:
  assumes "IndexedFileDb_inv db"
  shows "list_all (\<lambda>(q, k). unat k < length (file_path_to_file_id db)) (file_path_to_file_id db)"
proof -
  let ?p = "file_path_to_file_id db"
  from assms have s: "map snd ?p = map word_of_nat [0..<length ?p]" and b: "length ?p \<le> 2 ^ 29"
    by (simp_all add: IndexedFileDb_inv_def Let_def)
  have "unat (snd (?p ! j)) < length ?p" if "j < length ?p" for j
  proof -
    from that have "snd (?p ! j) = map snd ?p ! j" by simp
    also have "\<dots> = word_of_nat j" using that by (simp add: s)
    finally have "unat (snd (?p ! j)) = j"
      using that b by (simp add: unat_file_id_of_nat)
    with that show ?thesis by simp
  qed
  then have "\<forall>x \<in> set ?p. unat (snd x) < length ?p"
    by (metis in_set_conv_nth)
  then show ?thesis
    by (simp add: list_all_iff case_prod_beta)
qed

lemma inv_fresh_id_unused:
  assumes "IndexedFileDb_inv db"
  shows "um_find (file_id_to_file_path db) (word_of_nat (length (file_path_to_file_id db))) = None"
proof -
  let ?p = "file_path_to_file_id db"
  let ?n = "length ?p"
  from assms have i: "file_id_to_file_path db = map (\<lambda>(path, i). (i, path)) ?p"
    and b: "?n \<le> 2 ^ 29"
    by (simp_all add: IndexedFileDb_inv_def Let_def)
  have "(word_of_nat ?n :: 64 word) \<noteq> k" if "(q, k) \<in> set ?p" for q k
  proof
    assume e: "word_of_nat ?n = k"
    from inv_ids_below [OF assms] that have "unat k < ?n"
      by (auto simp add: list_all_iff)
    moreover have "unat (word_of_nat ?n :: 64 word) = ?n"
      by (rule unat_file_id_of_nat [OF b])
    ultimately show False using e by simp
  qed
  then show ?thesis
    unfolding um_find_None_iff i by force
qed

lemma Location_ctor_Inr:
  assumes "Location_ctor i f l c = Inr loc"
  shows "file_id loc = f \<and> f \<le> Maximum 29"
proof -
  have t: "f \<le> Maximum 29 \<and> ucast l \<le> Maximum 20 \<and> ucast c \<le> Maximum 14"
  proof (rule ccontr)
    assume "\<not> ?thesis"
    then have "Location_ctor i f l c = Inl CapacityExceeded"
      unfolding Location_ctor_def by (rule Location_ctor_from_overflow)
    with assms show False by simp
  qed
  then have "\<exists>a. Location_ctor i f l c = Inr a \<and> file_id a = f"
    using Location_ctor_from_fits [of f l c 0 i] unfolding Location_ctor_def by blast
  with assms t show ?thesis by auto
qed

lemma Resolve_known:
  assumes "um_find (file_path_to_file_id db) path = Some k"
  shows "Resolve db \<lparr>cx_file = Some path, cx_line = l, cx_column = c\<rparr> i u
     = (Location_ctor i k l c, db)"
  using assms by (simp add: Resolve_def)

lemma Resolve_fresh:
  assumes "um_find (file_path_to_file_id db) path = None"
  shows "Resolve db \<lparr>cx_file = Some path, cx_line = l, cx_column = c\<rparr> i u
     = (Location_ctor i (word_of_nat (um_size (file_path_to_file_id db))) l c,
        \<lparr>file_path_to_file_id =
           um_assign path (word_of_nat (um_size (file_path_to_file_id db)))
             (file_path_to_file_id db),
         file_id_to_file_path =
           um_assign (word_of_nat (um_size (file_path_to_file_id db))) path
             (file_id_to_file_path db)\<rparr>)"
  using assms by (simp add: Resolve_def Let_def)

lemma inv_fresh_preserved:
  assumes inv: "IndexedFileDb_inv db"
    and none: "um_find (file_path_to_file_id db) path = None"
    and fit: "length (file_path_to_file_id db) < 2 ^ 29"
  shows "IndexedFileDb_inv
     \<lparr>file_path_to_file_id =
        um_assign path (word_of_nat (length (file_path_to_file_id db)))
          (file_path_to_file_id db),
      file_id_to_file_path =
        um_assign (word_of_nat (length (file_path_to_file_id db))) path
          (file_id_to_file_path db)\<rparr>"
proof -
  let ?p = "file_path_to_file_id db"
  let ?n = "length ?p"
  from inv have ne: "?p \<noteq> []" and h: "fst (hd ?p) = []" and d: "distinct (map fst ?p)"
    and s: "map snd ?p = map word_of_nat [0..<?n]"
    and i: "file_id_to_file_path db = map (\<lambda>(path, i). (i, path)) ?p"
    by (simp_all add: IndexedFileDb_inv_def Let_def)
  have p': "um_assign path (word_of_nat ?n) ?p = ?p @ [(path, word_of_nat ?n)]"
    by (rule um_assign_new [OF none])
  have i': "um_assign (word_of_nat ?n) path (file_id_to_file_path db)
      = file_id_to_file_path db @ [(word_of_nat ?n, path)]"
    by (rule um_assign_new [OF inv_fresh_id_unused [OF inv]])
  from none have nin: "path \<notin> fst ` set ?p" by (simp add: um_find_None_iff)
  show ?thesis
    unfolding IndexedFileDb_inv_def p' i'
    using ne h d s i nin fit by (simp add: Let_def)
qed


text \<open>
  Claim C5. In a database built by the constructor and \<open>Resolve\<close>, a path that is
  already interned resolves to its id and leaves the database as it was. A path that
  is not interned gets the size of the path table as its id, and the binding is stored
  in both maps, which grow by that binding only. The fresh id is at least 1 (the
  empty path holds 0 since construction) and greater than every id assigned before;
  when the Location is constructed, it carries that id and the database is again of
  this form.
\<close>

theorem Resolve_interns_paths:
  assumes "IndexedFileDb_inv db"
  shows
    "(case um_find (file_path_to_file_id db) path of
        Some k \<Rightarrow>
          Resolve db \<lparr>cx_file = Some path, cx_line = l, cx_column = c\<rparr> i u
            = (Location_ctor i k l c, db) \<and>
          (\<forall>loc. Location_ctor i k l c = Inr loc \<longrightarrow> file_id loc = k)
      | None \<Rightarrow>
          (let n = um_size (file_path_to_file_id db);
               r = Resolve db \<lparr>cx_file = Some path, cx_line = l, cx_column = c\<rparr> i u
           in fst r = Location_ctor i (word_of_nat n) l c \<and>
              um_find (file_path_to_file_id (snd r))
                = (um_find (file_path_to_file_id db))(path \<mapsto> word_of_nat n) \<and>
              um_find (file_id_to_file_path (snd r))
                = (um_find (file_id_to_file_path db))(word_of_nat n \<mapsto> path) \<and>
              um_size (file_path_to_file_id (snd r)) = Suc n \<and>
              1 \<le> n \<and> unat (word_of_nat n :: FileId) = n \<and>
              list_all (\<lambda>(q, k). unat k < n) (file_path_to_file_id db) \<and>
              (\<forall>loc. fst r = Inr loc \<longrightarrow>
                 file_id loc = word_of_nat n \<and> IndexedFileDb_inv (snd r)))) \<and>
     um_find (file_path_to_file_id IndexedFileDb_ctor) [] = Some 0 \<and>
     IndexedFileDb_inv IndexedFileDb_ctor"
proof (intro conjI)
  let ?p = "file_path_to_file_id db"
  let ?n = "length ?p"
  from assms have ne: "?p \<noteq> []" and d: "distinct (map fst ?p)" and b: "?n \<le> 2 ^ 29"
    by (simp_all add: IndexedFileDb_inv_def Let_def)
  have sz: "um_size ?p = ?n" by (rule um_size_distinct [OF d])
  show "case um_find ?p path of
        Some k \<Rightarrow>
          Resolve db \<lparr>cx_file = Some path, cx_line = l, cx_column = c\<rparr> i u
            = (Location_ctor i k l c, db) \<and>
          (\<forall>loc. Location_ctor i k l c = Inr loc \<longrightarrow> file_id loc = k)
      | None \<Rightarrow>
          (let n = um_size ?p;
               r = Resolve db \<lparr>cx_file = Some path, cx_line = l, cx_column = c\<rparr> i u
           in fst r = Location_ctor i (word_of_nat n) l c \<and>
              um_find (file_path_to_file_id (snd r))
                = (um_find ?p)(path \<mapsto> word_of_nat n) \<and>
              um_find (file_id_to_file_path (snd r))
                = (um_find (file_id_to_file_path db))(word_of_nat n \<mapsto> path) \<and>
              um_size (file_path_to_file_id (snd r)) = Suc n \<and>
              1 \<le> n \<and> unat (word_of_nat n :: FileId) = n \<and>
              list_all (\<lambda>(q, k). unat k < n) ?p \<and>
              (\<forall>loc. fst r = Inr loc \<longrightarrow>
                 file_id loc = word_of_nat n \<and> IndexedFileDb_inv (snd r)))"
  proof (cases "um_find ?p path")
    case (Some k)
    then show ?thesis
      by (simp add: Resolve_known Location_ctor_Inr)
  next
    case None
    have p': "um_assign path (word_of_nat ?n) ?p = ?p @ [(path, word_of_nat ?n)]"
      by (rule um_assign_new [OF None])
    from None have nin: "path \<notin> fst ` set ?p" by (simp add: um_find_None_iff)
    have s': "um_size (um_assign path (word_of_nat ?n :: FileId) ?p) = Suc ?n"
      unfolding p' using d nin by (simp add: um_size_distinct)
    have u: "unat (word_of_nat ?n :: FileId) = ?n"
      by (rule unat_file_id_of_nat [OF b])
    have pres: "file_id loc = word_of_nat ?n \<and>
        IndexedFileDb_inv
          \<lparr>file_path_to_file_id = um_assign path (word_of_nat ?n) ?p,
           file_id_to_file_path = um_assign (word_of_nat ?n) path (file_id_to_file_path db)\<rparr>"
      if "Location_ctor i (word_of_nat ?n) l c = Inr loc" for loc
    proof -
      from Location_ctor_Inr [OF that]
      have f: "file_id loc = word_of_nat ?n" and "(word_of_nat ?n :: 64 word) \<le> Maximum 29"
        by simp_all
      then have "?n < 2 ^ 29" by (simp only: fits_unat u)
      with f inv_fresh_preserved [OF assms None] show ?thesis by simp
    qed
    from ne have one: "1 \<le> ?n" by (cases ?p) simp_all
    show ?thesis
      using pres one
      by (simp add: None Resolve_fresh [OF None] sz Let_def um_find_assign s' u
          inv_ids_below [OF assms])
  qed
  show "um_find (file_path_to_file_id IndexedFileDb_ctor) [] = Some 0"
    by (simp add: IndexedFileDb_ctor_def um_assign_def um_find_def Let_def)
  show "IndexedFileDb_inv IndexedFileDb_ctor"
    by (rule IndexedFileDb_inv_ctor)
qed

theorem Resolve_interns_paths_witness:
  "IndexedFileDb_inv IndexedFileDb_ctor \<and>
   snd (Resolve IndexedFileDb_ctor \<lparr>cx_file = Some ''a.cc'', cx_line = 1, cx_column = 1\<rparr> False 0)
     = \<lparr>file_path_to_file_id = [([], 0), (''a.cc'', 1)],
        file_id_to_file_path = [(0, []), (1, ''a.cc'')]\<rparr> \<and>
   um_find (file_path_to_file_id (snd (Resolve IndexedFileDb_ctor
       \<lparr>cx_file = Some ''a.cc'', cx_line = 1, cx_column = 1\<rparr> False 0))) ''a.cc'' = Some 1"
  using Resolve_interns_paths [OF IndexedFileDb_inv_ctor, of "''a.cc''" 1 1 False 0]
  by (simp add: IndexedFileDb_ctor_def Resolve_def um_find_def um_assign_def um_size_def Let_def)

section \<open>Properties of the record constructors\<close>

text \<open>
  Claim C9. Constructing a Func record or a Var record with an empty USR fails its
  assertion, and these constructors fail for no other USR. Constructing a Type record
  with an empty USR succeeds: neither the payload \<open>TypeDefDefinitionData\<close> nor the
  record \<open>IndexedTypeDef\<close> around it asserts anything, for any USR, and the record
  built carries the id and the empty USR given.
\<close>

theorem empty_usr_asserted_for_func_and_var:
  "(isl (FuncDefDefinitionData_ctor i usr) \<longleftrightarrow> usr = []) \<and>
   (isl (IndexedFuncDef_ctor i usr) \<longleftrightarrow> usr = []) \<and>
   (isl (IndexedVarDef_ctor i usr) \<longleftrightarrow> usr = []) \<and>
   FuncDefDefinitionData_ctor i [] = Inl InvariantViolated \<and>
   IndexedFuncDef_ctor i [] = Inl InvariantViolated \<and>
   IndexedVarDef_ctor i [] = Inl InvariantViolated \<and>
   (\<exists>d. TypeDefDefinitionData_ctor i [] = Inr d \<and> t_id d = i \<and> t_usr d = []) \<and>
   \<not> isl (TypeDefDefinitionData_ctor i usr) \<and>
   (\<exists>r. IndexedTypeDef_ctor i [] = Inr r \<and> t_id (type_def r) = i \<and>
        t_usr (type_def r) = [] \<and> type_uses r = []) \<and>
   \<not> isl (IndexedTypeDef_ctor i usr)"
  by (simp add: FuncDefDefinitionData_ctor_def IndexedFuncDef_ctor_def
      IndexedVarDef_ctor_def VarDefDefinitionData_ctor_def TypeDefDefinitionData_ctor_def
      IndexedTypeDef_ctor_def)

section \<open>Properties of usage insertion\<close>

lemma IsEqualTo_key: "IsEqualTo a b \<longleftrightarrow> position a = position b"
  by (simp add: IsEqualTo_def position_def)

lemma WithInteresting_stored:
  "WithInteresting x b = (x AND NOT (Mask 0 1)) OR push_bit 0 (of_bool b)"
  unfolding WithInteresting_def by (simp only: member_set_bool sum.case)

lemma WithInteresting_key: "position (WithInteresting x b) = position x"
  unfolding position_def
proof (rule bit_eqI)
  fix k
  have "bit (drop_bit 1 (WithInteresting x b)) k = bit (WithInteresting x b) (1 + k)"
    by (simp only: bit_drop_bit_eq o_apply)
  also have "\<dots> = bit x (1 + k)"
    unfolding WithInteresting_stored bit_stored
    using fits_bits [OF of_bool_fits, of b "1 + k"] by auto
  also have "\<dots> = bit (drop_bit 1 x) k"
    by (simp only: bit_drop_bit_eq o_apply)
  finally show "bit (drop_bit 1 (WithInteresting x b)) k = bit (drop_bit 1 x) k" .
qed

lemma WithInteresting_interesting: "interesting (WithInteresting x b) = of_bool b"
  unfolding WithInteresting_stored interesting_def
  by (rule member_get_stored_same [OF of_bool_fits]) simp

lemma no_duplicate_uses_distinct:
  "no_duplicate_uses us \<longleftrightarrow> distinct (map position us)"
  by (induction us) (auto simp add: list_ex_iff IsEqualTo_key)

lemma list_ex_IsEqualTo:
  "list_ex (\<lambda>x. IsEqualTo x loc) us \<longleftrightarrow> position loc \<in> set (map position us)"
proof -
  have "list_ex (\<lambda>x. IsEqualTo x loc) us \<longleftrightarrow> (\<exists>x \<in> set us. position loc = position x)"
    by (simp add: list_ex_iff IsEqualTo_key eq_commute)
  then show ?thesis by (simp add: image_iff)
qed

lemma add_usage_keys:
  "map position (add_usage us loc ins) =
     (if list_ex (\<lambda>x. IsEqualTo x loc) us \<or> \<not> ins then map position us
      else map position us @ [position loc])"
  by (induction us) (auto simp add: IsEqualTo_key WithInteresting_key list_ex_iff)

lemma add_usage_length:
  "length (add_usage us loc ins) =
     (if list_ex (\<lambda>x. IsEqualTo x loc) us \<or> \<not> ins then length us else Suc (length us))"
  using add_usage_keys [of us loc ins, THEN arg_cong, of length]
  by (simp split: if_splits)

lemma add_usage_no_duplicates:
  "no_duplicate_uses us \<Longrightarrow> no_duplicate_uses (add_usage us loc ins)"
  unfolding no_duplicate_uses_distinct add_usage_keys
  by (simp add: list_ex_IsEqualTo)

lemma add_usage_nth:
  "i < length us \<Longrightarrow>
     IsEqualTo (add_usage us loc ins ! i) (us ! i) \<and>
     (interesting (us ! i) \<noteq> 0 \<longrightarrow> interesting (add_usage us loc ins ! i) \<noteq> 0)"
proof (induction us arbitrary: i)
  case Nil
  then show ?case by simp
next
  case (Cons x xs)
  show ?case
  proof (cases i)
    case 0
    then show ?thesis
      by (simp add: IsEqualTo_key WithInteresting_key)
  next
    case (Suc j)
    with Cons.prems have "j < length xs" by simp
    from Cons.IH [OF this] Suc show ?thesis
      by (simp add: IsEqualTo_key)
  qed
qed

lemma add_usage_promotes:
  assumes "no_duplicate_uses us" and "i < length us" and "IsEqualTo (us ! i) loc"
    and "interesting loc \<noteq> 0"
  shows "interesting (add_usage us loc ins ! i) \<noteq> 0"
  using assms
proof (induction us arbitrary: i)
  case Nil
  then show ?case by simp
next
  case (Cons x xs)
  show ?case
  proof (cases i)
    case 0
    with Cons.prems show ?thesis
      by (simp add: WithInteresting_interesting)
  next
    case (Suc j)
    with Cons.prems have j: "j < length xs" "IsEqualTo (xs ! j) loc" by simp_all
    then have "position loc \<in> set (map position xs)"
      by (auto simp add: IsEqualTo_key in_set_conv_nth intro!: image_eqI [where x = "xs ! j"])
    with Cons.prems(1) have "\<not> IsEqualTo x loc"
      by (auto simp add: no_duplicate_uses_distinct IsEqualTo_key)
    with Cons.IH [OF _ j Cons.prems(4)] Cons.prems(1) Suc show ?thesis
      by simp
  qed
qed

lemma add_usages_persist:
  "i < length us \<Longrightarrow>
     i < length (add_usages us calls) \<and>
     IsEqualTo (add_usages us calls ! i) (us ! i) \<and>
     (interesting (us ! i) \<noteq> 0 \<longrightarrow> interesting (add_usages us calls ! i) \<noteq> 0)"
proof (induction calls arbitrary: us)
  case Nil
  then show ?case by (simp add: IsEqualTo_key)
next
  case (Cons call calls)
  obtain loc ins where call: "call = (loc, ins)" by (cases call)
  from Cons.prems have l: "i < length (add_usage us loc ins)"
    by (simp add: add_usage_length)
  from Cons.IH [OF l] add_usage_nth [OF Cons.prems, of loc ins] show ?case
    by (auto simp add: call IsEqualTo_key)
qed

lemma add_usages_no_duplicates:
  "no_duplicate_uses us \<Longrightarrow> no_duplicate_uses (add_usages us calls)"
proof (induction calls arbitrary: us)
  case Nil
  then show ?case by simp
next
  case (Cons call calls)
  obtain loc ins where call: "call = (loc, ins)" by (cases call)
  from Cons.IH [OF add_usage_no_duplicates [OF Cons.prems, of loc ins]] show ?case
    by (simp add: call)
qed

text \<open>
  Claim C4. Whatever the sequence of calls on an entity whose \<open>uses\<close> start empty,
  no two elements of \<open>uses\<close> are equal ignoring \<open>interesting\<close>. Adding a location that
  is present does not grow the vector, and if it is interesting the entry equal to it
  is interesting afterwards. Every entry keeps its position and its location through
  all later calls, and an entry that is interesting stays so.
\<close>

theorem add_usage_deduplicates:
  "no_duplicate_uses (add_usages [] calls) \<and>
   (list_ex (\<lambda>x. IsEqualTo x loc) (add_usages [] calls) \<longrightarrow>
      length (add_usage (add_usages [] calls) loc ins) = length (add_usages [] calls)) \<and>
   (\<forall>i < length (add_usages [] calls).
      IsEqualTo (add_usages [] calls ! i) loc \<and> interesting loc \<noteq> 0 \<longrightarrow>
      interesting (add_usage (add_usages [] calls) loc ins ! i) \<noteq> 0) \<and>
   (\<forall>i < length (add_usages [] calls).
      i < length (add_usages (add_usages [] calls) later) \<and>
      IsEqualTo (add_usages (add_usages [] calls) later ! i) (add_usages [] calls ! i) \<and>
      (interesting (add_usages [] calls ! i) \<noteq> 0 \<longrightarrow>
         interesting (add_usages (add_usages [] calls) later ! i) \<noteq> 0)) \<and>
   type_uses (AddUsage t loc ins) = add_usage (type_uses t) loc ins \<and>
   func_uses (AddUsage_func fn loc ins) = add_usage (func_uses fn) loc ins \<and>
   var_uses (AddUsage_var v loc ins) = add_usage (var_uses v) loc ins"
proof -
  have n: "no_duplicate_uses (add_usages [] calls)"
    by (rule add_usages_no_duplicates) simp
  show ?thesis
    using n add_usage_promotes [OF n] add_usages_persist [of _ "add_usages [] calls" later]
    by (simp add: add_usage_length AddUsage_def AddUsage_func_def AddUsage_var_def)
qed

theorem add_usage_deduplicates_witness:
  "add_usages [] [(2, True), (3, True), (2, True), (5, False), (4, True)] = [3, 4] \<and>
   list_ex (\<lambda>x. IsEqualTo x 2) [3, 4] \<and> add_usage [3, 4] 2 True = [3, 4] \<and>
   IsEqualTo ([2, 4] ! 0) 3 \<and> interesting 3 \<noteq> 0 \<and> add_usage [2, 4] 3 True = [3, 4]"
  using add_usage_deduplicates [of "[(2, True), (3, True), (2, True), (5, False), (4, True)]" 2 True "[]"]
    add_usage_deduplicates [of "[(2, True), (4, True)]" 3 True "[]"]
  by (simp add: IsEqualTo_def interesting_def member_get_take_drop WithInteresting_stored
      Mask_def Maximum_mask)

section \<open>Properties of the USR tables\<close>

lemma interned_empty: "interned [] [] []"
  by (simp add: interned_def)

lemma interned_lookup:
  assumes "interned m usrs ids" and "um_find m u = Some i"
  shows "i < length usrs \<and> usrs ! i = u"
proof -
  from assms(2) have "(u, i) \<in> set m"
    unfolding um_find_def by (rule map_of_SomeD)
  with assms(1) show ?thesis
    by (auto simp add: interned_def list_all_iff)
qed

lemma interned_found:
  assumes "interned m usrs ids" and "i < length usrs"
  shows "um_find m (usrs ! i) = Some i"
  using assms by (simp add: interned_def list_all_iff)

lemma interned_distinct:
  assumes "interned m usrs ids"
  shows "distinct usrs"
proof -
  have "i = j" if "i < length usrs" "j < length usrs" "usrs ! i = usrs ! j" for i j
    using interned_found [OF assms that(1)] interned_found [OF assms that(2)] that(3)
    by (metis option.inject)
  then show ?thesis unfolding distinct_conv_nth by blast
qed

lemma interned_absent:
  assumes "interned m usrs ids" and "um_find m u = None"
  shows "u \<notin> set usrs"
proof
  assume "u \<in> set usrs"
  then obtain i where "i < length usrs" "usrs ! i = u" by (auto simp add: in_set_conv_nth)
  with interned_found [OF assms(1), of i] assms(2) show False by simp
qed

lemma interned_ids: "interned m usrs ids \<Longrightarrow> ids = [0..<length usrs]"
  by (simp add: interned_def)

lemma interned_append:
  assumes i: "interned m usrs ids" and n: "um_find m u = None"
  shows "interned (um_assign u (length usrs) m) (usrs @ [u]) (ids @ [length usrs])"
proof -
  have m': "um_assign u (length usrs) m = m @ [(u, length usrs)]"
    by (rule um_assign_new [OF n])
  from n have nin: "u \<notin> fst ` set m" by (simp add: um_find_None_iff)
  have a: "distinct (map fst (m @ [(u, length usrs)]))"
    using i nin by (simp add: interned_def)
  have "k < length (usrs @ [u]) \<and> (usrs @ [u]) ! k = v" if "(v, k) \<in> set m" for v k
  proof -
    from i that have "k < length usrs \<and> usrs ! k = v"
      by (auto simp add: interned_def list_all_iff)
    then show ?thesis by (simp add: nth_append)
  qed
  then have b: "list_all (\<lambda>(v, k). k < length (usrs @ [u]) \<and> (usrs @ [u]) ! k = v)
      (m @ [(u, length usrs)])"
    by (auto simp add: list_all_iff)
  have c: "um_find (m @ [(u, length usrs)]) ((usrs @ [u]) ! k) = Some k"
    if "k < length (usrs @ [u])" for k
  proof (cases "k < length usrs")
    case True
    from interned_found [OF i True] have "um_find m (usrs ! k) = Some k" .
    with True show ?thesis by (simp add: um_find_def nth_append)
  next
    case False
    with that have "k = length usrs" by simp
    with n show ?thesis by (simp add: um_find_def map_add_def)
  qed
  have d: "ids @ [length usrs] = [0..<length (usrs @ [u])]"
    using interned_ids [OF i] by simp
  have c': "list_all (\<lambda>k. um_find (m @ [(u, length usrs)]) ((usrs @ [u]) ! k) = Some k)
      [0..<length (usrs @ [u])]"
    unfolding list_all_iff
  proof
    fix k
    assume "k \<in> set [0..<length (usrs @ [u])]"
    then have "k < length (usrs @ [u])" by (simp only: set_upt atLeastLessThan_iff)
    then show "um_find (m @ [(u, length usrs)]) ((usrs @ [u]) ! k) = Some k" by (rule c)
  qed
  show ?thesis
    unfolding m' interned_def using a b c' d by blast
qed


lemma interned_nth_id:
  assumes "interned m (map usr_of rs) (map id_of rs)" and "k < length rs"
  shows "id_of (rs ! k) = k"
proof -
  from interned_ids [OF assms(1)] have "map id_of rs ! k = [0..<length rs] ! k" by simp
  with assms(2) show ?thesis by simp
qed

lemma IndexedFile_inv_ctor: "IndexedFile_inv IndexedFile_ctor"
  by (simp add: IndexedFile_inv_def IndexedFile_ctor_def interned_empty)

lemma ToTypeId_known:
  "um_find (usr_to_type_id f) usr = Some k \<Longrightarrow> ToTypeId f usr = Inr (k, f)"
  by (simp add: ToTypeId_def)

lemma ToTypeId_fresh:
  assumes "um_find (usr_to_type_id f) usr = None"
  shows "\<exists>r. ToTypeId f usr =
           Inr (length (types f),
                f\<lparr>types := types f @ [r],
                  usr_to_type_id := um_assign usr (length (types f)) (usr_to_type_id f)\<rparr>) \<and>
         t_id (type_def r) = length (types f) \<and> t_usr (type_def r) = usr"
  using assms
  by (intro exI [where x = "\<lparr>type_def = \<lparr>t_id = length (types f), t_usr = usr, t_short_name = [],
            t_qualified_name = [], t_definition = None, t_alias_of = None, t_parents = [],
            t_types = [], t_funcs = [], t_vars = []\<rparr>,
          type_derived = [], type_uses = [], type_is_system_def = False\<rparr>"])
    (simp add: ToTypeId_def IndexedTypeDef_ctor_def TypeDefDefinitionData_ctor_def Let_def)

lemma ToTypeId_fresh_inv:
  assumes inv: "IndexedFile_inv f" and none: "um_find (usr_to_type_id f) usr = None"
    and r: "t_id (type_def r) = length (types f)" "t_usr (type_def r) = usr"
  shows "IndexedFile_inv
     (f\<lparr>types := types f @ [r],
        usr_to_type_id := um_assign usr (length (types f)) (usr_to_type_id f)\<rparr>)"
proof -
  from inv have "interned (usr_to_type_id f) (map (\<lambda>r. t_usr (type_def r)) (types f))
      (map (\<lambda>r. t_id (type_def r)) (types f))"
    by (simp add: IndexedFile_inv_def)
  from interned_append [OF this none] inv r show ?thesis
    by (simp add: IndexedFile_inv_def)
qed

lemma ToTypeId_block:
  assumes inv: "IndexedFile_inv f"
  shows "(case um_find (usr_to_type_id f) usr of
        Some k \<Rightarrow> ToTypeId f usr = Inr (k, f)
      | None \<Rightarrow>
          (\<exists>r. ToTypeId f usr =
                 Inr (length (types f),
                      f\<lparr>types := types f @ [r],
                        usr_to_type_id := um_assign usr (length (types f)) (usr_to_type_id f)\<rparr>) \<and>
               t_id (type_def r) = length (types f) \<and> t_usr (type_def r) = usr)) \<and>
     (\<forall>k f'. ToTypeId f usr = Inr (k, f') \<longrightarrow>
        IndexedFile_inv f' \<and> um_find (usr_to_type_id f') usr = Some k) \<and>
     distinct (map (\<lambda>r. t_usr (type_def r)) (types f)) \<and>
     (\<forall>u k. um_find (usr_to_type_id f) u = Some k \<longrightarrow>
        k < length (types f) \<and> t_usr (type_def (types f ! k)) = u \<and>
        t_id (type_def (types f ! k)) = k)"
proof -
  let ?us = "map (\<lambda>r. t_usr (type_def r)) (types f)"
  let ?ids = "map (\<lambda>r. t_id (type_def r)) (types f)"
  from inv have i: "interned (usr_to_type_id f) ?us ?ids"
    by (simp add: IndexedFile_inv_def)
  have look: "k < length (types f) \<and> t_usr (type_def (types f ! k)) = u \<and>
      t_id (type_def (types f ! k)) = k"
    if "um_find (usr_to_type_id f) u = Some k" for u k
  proof -
    from interned_lookup [OF i that] have k: "k < length (types f)" and "?us ! k = u"
      by simp_all
    then have "t_usr (type_def (types f ! k)) = u" by simp
    moreover from interned_nth_id [OF i k] have "t_id (type_def (types f ! k)) = k" .
    ultimately show ?thesis using k by simp
  qed
  have dist: "distinct ?us" by (rule interned_distinct [OF i])
  show ?thesis
  proof (cases "um_find (usr_to_type_id f) usr")
    case (Some k)
    with inv look dist show ?thesis
      by (simp add: ToTypeId_known)
  next
    case None
    from ToTypeId_fresh [OF None] obtain r where
      r: "ToTypeId f usr =
           Inr (length (types f),
                f\<lparr>types := types f @ [r],
                  usr_to_type_id := um_assign usr (length (types f)) (usr_to_type_id f)\<rparr>)"
        "t_id (type_def r) = length (types f)" "t_usr (type_def r) = usr"
      by blast
    from ToTypeId_fresh_inv [OF inv None r(2,3)] have inv': "IndexedFile_inv
       (f\<lparr>types := types f @ [r],
          usr_to_type_id := um_assign usr (length (types f)) (usr_to_type_id f)\<rparr>)" .
    have ex: "\<exists>r. ToTypeId f usr =
           Inr (length (types f),
                f\<lparr>types := types f @ [r],
                  usr_to_type_id := um_assign usr (length (types f)) (usr_to_type_id f)\<rparr>) \<and>
         t_id (type_def r) = length (types f) \<and> t_usr (type_def r) = usr"
      by (rule ToTypeId_fresh [OF None])
    have post: "\<forall>k f'. ToTypeId f usr = Inr (k, f') \<longrightarrow>
        IndexedFile_inv f' \<and> um_find (usr_to_type_id f') usr = Some k"
      using inv' by (simp add: r(1) um_find_assign)
    from ex post dist look show ?thesis
      by (simp only: None option.case) blast
  qed
qed

lemma ToFuncId_known:
  "um_find (usr_to_func_id f) usr = Some k \<Longrightarrow> ToFuncId f usr = Inr (k, f)"
  by (simp add: ToFuncId_def)

lemma ToFuncId_fresh:
  assumes "um_find (usr_to_func_id f) usr = None" and ne: "usr \<noteq> []"
  shows "\<exists>r. ToFuncId f usr =
           Inr (length (funcs f),
                f\<lparr>funcs := funcs f @ [r],
                  usr_to_func_id := um_assign usr (length (funcs f)) (usr_to_func_id f)\<rparr>) \<and>
         f_id (func_def r) = length (funcs f) \<and> f_usr (func_def r) = usr"
  using assms
  by (intro exI [where x = "\<lparr>func_def = \<lparr>f_id = length (funcs f), f_usr = usr, f_short_name = [],
            f_qualified_name = [], f_definition = None, f_declaring_type = None,
            f_base = None, f_locals = [], f_callees = []\<rparr>,
          func_declarations = [], func_derived = [], func_callers = [], func_uses = [],
          func_is_system_def = False\<rparr>"])
    (simp add: ToFuncId_def IndexedFuncDef_ctor_def FuncDefDefinitionData_ctor_def Let_def)

lemma ToFuncId_fresh_inv:
  assumes inv: "IndexedFile_inv f" and none: "um_find (usr_to_func_id f) usr = None"
    and r: "f_id (func_def r) = length (funcs f)" "f_usr (func_def r) = usr"
  shows "IndexedFile_inv
     (f\<lparr>funcs := funcs f @ [r],
        usr_to_func_id := um_assign usr (length (funcs f)) (usr_to_func_id f)\<rparr>)"
proof -
  from inv have "interned (usr_to_func_id f) (map (\<lambda>r. f_usr (func_def r)) (funcs f))
      (map (\<lambda>r. f_id (func_def r)) (funcs f))"
    by (simp add: IndexedFile_inv_def)
  from interned_append [OF this none] inv r show ?thesis
    by (simp add: IndexedFile_inv_def)
qed

lemma ToFuncId_block:
  assumes inv: "IndexedFile_inv f" and ne: "usr \<noteq> []"
  shows "(case um_find (usr_to_func_id f) usr of
        Some k \<Rightarrow> ToFuncId f usr = Inr (k, f)
      | None \<Rightarrow>
          (\<exists>r. ToFuncId f usr =
                 Inr (length (funcs f),
                      f\<lparr>funcs := funcs f @ [r],
                        usr_to_func_id := um_assign usr (length (funcs f)) (usr_to_func_id f)\<rparr>) \<and>
               f_id (func_def r) = length (funcs f) \<and> f_usr (func_def r) = usr)) \<and>
     (\<forall>k f'. ToFuncId f usr = Inr (k, f') \<longrightarrow>
        IndexedFile_inv f' \<and> um_find (usr_to_func_id f') usr = Some k) \<and>
     distinct (map (\<lambda>r. f_usr (func_def r)) (funcs f)) \<and>
     (\<forall>u k. um_find (usr_to_func_id f) u = Some k \<longrightarrow>
        k < length (funcs f) \<and> f_usr (func_def (funcs f ! k)) = u \<and>
        f_id (func_def (funcs f ! k)) = k)"
proof -
  let ?us = "map (\<lambda>r. f_usr (func_def r)) (funcs f)"
  let ?ids = "map (\<lambda>r. f_id (func_def r)) (funcs f)"
  from inv have i: "interned (usr_to_func_id f) ?us ?ids"
    by (simp add: IndexedFile_inv_def)
  have look: "k < length (funcs f) \<and> f_usr (func_def (funcs f ! k)) = u \<and>
      f_id (func_def (funcs f ! k)) = k"
    if "um_find (usr_to_func_id f) u = Some k" for u k
  proof -
    from interned_lookup [OF i that] have k: "k < length (funcs f)" and "?us ! k = u"
      by simp_all
    then have "f_usr (func_def (funcs f ! k)) = u" by simp
    moreover from interned_nth_id [OF i k] have "f_id (func_def (funcs f ! k)) = k" .
    ultimately show ?thesis using k by simp
  qed
  have dist: "distinct ?us" by (rule interned_distinct [OF i])
  show ?thesis
  proof (cases "um_find (usr_to_func_id f) usr")
    case (Some k)
    with inv look dist show ?thesis
      by (simp add: ToFuncId_known)
  next
    case None
    from ToFuncId_fresh [OF None ne] obtain r where
      r: "ToFuncId f usr =
           Inr (length (funcs f),
                f\<lparr>funcs := funcs f @ [r],
                  usr_to_func_id := um_assign usr (length (funcs f)) (usr_to_func_id f)\<rparr>)"
        "f_id (func_def r) = length (funcs f)" "f_usr (func_def r) = usr"
      by blast
    from ToFuncId_fresh_inv [OF inv None r(2,3)] have inv': "IndexedFile_inv
       (f\<lparr>funcs := funcs f @ [r],
          usr_to_func_id := um_assign usr (length (funcs f)) (usr_to_func_id f)\<rparr>)" .
    have ex: "\<exists>r. ToFuncId f usr =
           Inr (length (funcs f),
                f\<lparr>funcs := funcs f @ [r],
                  usr_to_func_id := um_assign usr (length (funcs f)) (usr_to_func_id f)\<rparr>) \<and>
         f_id (func_def r) = length (funcs f) \<and> f_usr (func_def r) = usr"
      by (rule ToFuncId_fresh [OF None ne])
    have post: "\<forall>k f'. ToFuncId f usr = Inr (k, f') \<longrightarrow>
        IndexedFile_inv f' \<and> um_find (usr_to_func_id f') usr = Some k"
      using inv' by (simp add: r(1) um_find_assign)
    from ex post dist look show ?thesis
      by (simp only: None option.case) blast
  qed
qed

lemma ToVarId_known:
  "um_find (usr_to_var_id f) usr = Some k \<Longrightarrow> ToVarId f usr = Inr (k, f)"
  by (simp add: ToVarId_def)

lemma ToVarId_fresh:
  assumes "um_find (usr_to_var_id f) usr = None" and ne: "usr \<noteq> []"
  shows "\<exists>r. ToVarId f usr =
           Inr (length (vars f),
                f\<lparr>vars := vars f @ [r],
                  usr_to_var_id := um_assign usr (length (vars f)) (usr_to_var_id f)\<rparr>) \<and>
         v_id (var_def r) = length (vars f) \<and> v_usr (var_def r) = usr"
  using assms
  by (intro exI [where x = "\<lparr>var_def = \<lparr>v_id = length (vars f), v_usr = usr, v_short_name = [],
            v_qualified_name = [], v_declaration = None, v_definition = None,
            v_variable_type = None, v_declaring_type = None\<rparr>,
          var_uses = [], var_is_system_def = False\<rparr>"])
    (simp add: ToVarId_def IndexedVarDef_ctor_def VarDefDefinitionData_ctor_def Let_def)

lemma ToVarId_fresh_inv:
  assumes inv: "IndexedFile_inv f" and none: "um_find (usr_to_var_id f) usr = None"
    and r: "v_id (var_def r) = length (vars f)" "v_usr (var_def r) = usr"
  shows "IndexedFile_inv
     (f\<lparr>vars := vars f @ [r],
        usr_to_var_id := um_assign usr (length (vars f)) (usr_to_var_id f)\<rparr>)"
proof -
  from inv have "interned (usr_to_var_id f) (map (\<lambda>r. v_usr (var_def r)) (vars f))
      (map (\<lambda>r. v_id (var_def r)) (vars f))"
    by (simp add: IndexedFile_inv_def)
  from interned_append [OF this none] inv r show ?thesis
    by (simp add: IndexedFile_inv_def)
qed

lemma ToVarId_block:
  assumes inv: "IndexedFile_inv f" and ne: "usr \<noteq> []"
  shows "(case um_find (usr_to_var_id f) usr of
        Some k \<Rightarrow> ToVarId f usr = Inr (k, f)
      | None \<Rightarrow>
          (\<exists>r. ToVarId f usr =
                 Inr (length (vars f),
                      f\<lparr>vars := vars f @ [r],
                        usr_to_var_id := um_assign usr (length (vars f)) (usr_to_var_id f)\<rparr>) \<and>
               v_id (var_def r) = length (vars f) \<and> v_usr (var_def r) = usr)) \<and>
     (\<forall>k f'. ToVarId f usr = Inr (k, f') \<longrightarrow>
        IndexedFile_inv f' \<and> um_find (usr_to_var_id f') usr = Some k) \<and>
     distinct (map (\<lambda>r. v_usr (var_def r)) (vars f)) \<and>
     (\<forall>u k. um_find (usr_to_var_id f) u = Some k \<longrightarrow>
        k < length (vars f) \<and> v_usr (var_def (vars f ! k)) = u \<and>
        v_id (var_def (vars f ! k)) = k)"
proof -
  let ?us = "map (\<lambda>r. v_usr (var_def r)) (vars f)"
  let ?ids = "map (\<lambda>r. v_id (var_def r)) (vars f)"
  from inv have i: "interned (usr_to_var_id f) ?us ?ids"
    by (simp add: IndexedFile_inv_def)
  have look: "k < length (vars f) \<and> v_usr (var_def (vars f ! k)) = u \<and>
      v_id (var_def (vars f ! k)) = k"
    if "um_find (usr_to_var_id f) u = Some k" for u k
  proof -
    from interned_lookup [OF i that] have k: "k < length (vars f)" and "?us ! k = u"
      by simp_all
    then have "v_usr (var_def (vars f ! k)) = u" by simp
    moreover from interned_nth_id [OF i k] have "v_id (var_def (vars f ! k)) = k" .
    ultimately show ?thesis using k by simp
  qed
  have dist: "distinct ?us" by (rule interned_distinct [OF i])
  show ?thesis
  proof (cases "um_find (usr_to_var_id f) usr")
    case (Some k)
    with inv look dist show ?thesis
      by (simp add: ToVarId_known)
  next
    case None
    from ToVarId_fresh [OF None ne] obtain r where
      r: "ToVarId f usr =
           Inr (length (vars f),
                f\<lparr>vars := vars f @ [r],
                  usr_to_var_id := um_assign usr (length (vars f)) (usr_to_var_id f)\<rparr>)"
        "v_id (var_def r) = length (vars f)" "v_usr (var_def r) = usr"
      by blast
    from ToVarId_fresh_inv [OF inv None r(2,3)] have inv': "IndexedFile_inv
       (f\<lparr>vars := vars f @ [r],
          usr_to_var_id := um_assign usr (length (vars f)) (usr_to_var_id f)\<rparr>)" .
    have ex: "\<exists>r. ToVarId f usr =
           Inr (length (vars f),
                f\<lparr>vars := vars f @ [r],
                  usr_to_var_id := um_assign usr (length (vars f)) (usr_to_var_id f)\<rparr>) \<and>
         v_id (var_def r) = length (vars f) \<and> v_usr (var_def r) = usr"
      by (rule ToVarId_fresh [OF None ne])
    have post: "\<forall>k f'. ToVarId f usr = Inr (k, f') \<longrightarrow>
        IndexedFile_inv f' \<and> um_find (usr_to_var_id f') usr = Some k"
      using inv' by (simp add: r(1) um_find_assign)
    from ex post dist look show ?thesis
      by (simp only: None option.case) blast
  qed
qed


text \<open>
  Claim C3, amended. In an IndexedFile built by the constructor and these three
  functions, for every USR and each kind (for Func and Var: every non-empty USR; the
  empty one fails the assertion of the record's constructor): if the USR is in the
  table, its id is returned and nothing changes; else exactly one record is appended,
  whose id is the length of the vector before and whose USR is the one given, and the
  table binds the USR to that id. Afterwards the table finds the USR at the id
  returned; no two records of a kind share a USR, and every binding of the table leads
  to a record with that USR and that id.
\<close>

theorem ToId_interns_usr:
  assumes "IndexedFile_inv f"
  shows
    "((case um_find (usr_to_type_id f) usr of
        Some k \<Rightarrow> ToTypeId f usr = Inr (k, f)
      | None \<Rightarrow>
          (\<exists>r. ToTypeId f usr =
                 Inr (length (types f),
                      f\<lparr>types := types f @ [r],
                        usr_to_type_id := um_assign usr (length (types f)) (usr_to_type_id f)\<rparr>) \<and>
               t_id (type_def r) = length (types f) \<and> t_usr (type_def r) = usr)) \<and>
     (\<forall>k f'. ToTypeId f usr = Inr (k, f') \<longrightarrow>
        IndexedFile_inv f' \<and> um_find (usr_to_type_id f') usr = Some k) \<and>
     distinct (map (\<lambda>r. t_usr (type_def r)) (types f)) \<and>
     (\<forall>u k. um_find (usr_to_type_id f) u = Some k \<longrightarrow>
        k < length (types f) \<and> t_usr (type_def (types f ! k)) = u \<and>
        t_id (type_def (types f ! k)) = k)) \<and>
     (usr \<noteq> [] \<longrightarrow>
     (case um_find (usr_to_func_id f) usr of
          Some k \<Rightarrow> ToFuncId f usr = Inr (k, f)
        | None \<Rightarrow>
            (\<exists>r. ToFuncId f usr =
                   Inr (length (funcs f),
                        f\<lparr>funcs := funcs f @ [r],
                          usr_to_func_id := um_assign usr (length (funcs f)) (usr_to_func_id f)\<rparr>) \<and>
                 f_id (func_def r) = length (funcs f) \<and> f_usr (func_def r) = usr)) \<and>
       (\<forall>k f'. ToFuncId f usr = Inr (k, f') \<longrightarrow>
          IndexedFile_inv f' \<and> um_find (usr_to_func_id f') usr = Some k) \<and>
       distinct (map (\<lambda>r. f_usr (func_def r)) (funcs f)) \<and>
       (\<forall>u k. um_find (usr_to_func_id f) u = Some k \<longrightarrow>
          k < length (funcs f) \<and> f_usr (func_def (funcs f ! k)) = u \<and>
          f_id (func_def (funcs f ! k)) = k)) \<and>
     (usr \<noteq> [] \<longrightarrow>
     (case um_find (usr_to_var_id f) usr of
          Some k \<Rightarrow> ToVarId f usr = Inr (k, f)
        | None \<Rightarrow>
            (\<exists>r. ToVarId f usr =
                   Inr (length (vars f),
                        f\<lparr>vars := vars f @ [r],
                          usr_to_var_id := um_assign usr (length (vars f)) (usr_to_var_id f)\<rparr>) \<and>
                 v_id (var_def r) = length (vars f) \<and> v_usr (var_def r) = usr)) \<and>
       (\<forall>k f'. ToVarId f usr = Inr (k, f') \<longrightarrow>
          IndexedFile_inv f' \<and> um_find (usr_to_var_id f') usr = Some k) \<and>
       distinct (map (\<lambda>r. v_usr (var_def r)) (vars f)) \<and>
       (\<forall>u k. um_find (usr_to_var_id f) u = Some k \<longrightarrow>
          k < length (vars f) \<and> v_usr (var_def (vars f ! k)) = u \<and>
          v_id (var_def (vars f ! k)) = k)) \<and>
     IndexedFile_inv IndexedFile_ctor"
  by (rule conjI [OF ToTypeId_block [OF assms]
        conjI [OF impI [OF ToFuncId_block [OF assms]]
          conjI [OF impI [OF ToVarId_block [OF assms]] IndexedFile_inv_ctor]]])

theorem ToId_interns_usr_witness:
  "IndexedFile_inv IndexedFile_ctor \<and> ''c:@F@f#'' \<noteq> [] \<and>
   (\<exists>f'. ToFuncId IndexedFile_ctor ''c:@F@f#'' = Inr (0, f') \<and>
      um_find (usr_to_func_id f') ''c:@F@f#'' = Some 0 \<and> IndexedFile_inv f')"
  using ToId_interns_usr [OF IndexedFile_inv_ctor, of "''c:@F@f#''"]
  by (auto simp add: IndexedFile_ctor_def um_find_def)

theorem ToId_empty_usr_counterexample:
  "um_find (usr_to_func_id IndexedFile_ctor) [] = None \<and>
   ToFuncId IndexedFile_ctor [] = Inl InvariantViolated \<and>
   um_find (usr_to_var_id IndexedFile_ctor) [] = None \<and>
   ToVarId IndexedFile_ctor [] = Inl InvariantViolated"
  by (simp add: IndexedFile_ctor_def um_find_def ToFuncId_def ToVarId_def
      IndexedFuncDef_ctor_def FuncDefDefinitionData_ctor_def
      IndexedVarDef_ctor_def VarDefDefinitionData_ctor_def)

section \<open>Properties of the request handler\<close>

lemma ccls_vars_loop_step:
  "ccls_vars_loop A L (s # syms) r =
     ccls_vars_loop A L syms (case target A s of None \<Rightarrow> r | Some u \<Rightarrow> L u)"
  by (cases "sym_kind s") (simp_all add: target_def Let_def split: option.split)

lemma skipped_target: "skipped A s \<Longrightarrow> target A s = None"
  by (auto simp add: skipped_def target_def split: option.splits)

lemma ccls_vars_loop_skipped:
  "ccls_vars_loop A L (filter (\<lambda>s. \<not> skipped A s) syms) r = ccls_vars_loop A L syms r"
proof (induction syms arbitrary: r)
  case Nil
  show ?case by simp
next
  case (Cons s syms)
  show ?case
  proof (cases "skipped A s")
    case True
    then show ?thesis
      using Cons.IH [of r] by (simp add: skipped_target del: ccls_vars_loop.simps add: ccls_vars_loop_step)
  next
    case False
    then show ?thesis
      using Cons.IH by (simp del: ccls_vars_loop.simps add: ccls_vars_loop_step)
  qed
qed

lemma ccls_vars_loop_last:
  "ccls_vars_loop A L syms r =
     (case List.map_filter (target A) syms of [] \<Rightarrow> r | u # us \<Rightarrow> L (last (u # us)))"
proof (induction syms arbitrary: r)
  case Nil
  show ?case by simp
next
  case (Cons s syms)
  show ?case
    unfolding ccls_vars_loop_step Cons.IH
    by (cases "target A s"; cases "List.map_filter (target A) syms")
      simp_all
qed

text \<open>
  Claim C10. In the handler, a variable symbol without a definition, or whose
  definition has no type, contributes nothing: the loop gives the same result with
  these symbols removed. Only type symbols and variable symbols with a recorded type
  (taken as their type) set the result, which is that of the last such symbol and
  stays empty when there is none.
\<close>

theorem ccls_vars_skips_untyped_variables:
  "ccls_vars_loop A L syms r = ccls_vars_loop A L (filter (\<lambda>s. \<not> skipped A s) syms) r \<and>
   ccls_vars_loop A L syms r =
     (case List.map_filter (target A) syms of [] \<Rightarrow> r | u # us \<Rightarrow> L (last (u # us))) \<and>
   ccls_vars A L True syms =
     Some (case List.map_filter (target A) syms of [] \<Rightarrow> [] | u # us \<Rightarrow> L (last (u # us))) \<and>
   (target A s = None \<longleftrightarrow>
      sym_kind s \<noteq> Kind_Type \<and> (sym_kind s = Kind_Var \<longrightarrow> skipped A s))"
proof (intro conjI)
  show "ccls_vars_loop A L syms r = ccls_vars_loop A L (filter (\<lambda>s. \<not> skipped A s) syms) r"
    by (simp only: ccls_vars_loop_skipped)
  show "ccls_vars_loop A L syms r =
     (case List.map_filter (target A) syms of [] \<Rightarrow> r | u # us \<Rightarrow> L (last (u # us)))"
    by (rule ccls_vars_loop_last)
  show "ccls_vars A L True syms =
     Some (case List.map_filter (target A) syms of [] \<Rightarrow> [] | u # us \<Rightarrow> L (last (u # us)))"
    by (simp add: ccls_vars_def ccls_vars_loop_last)
  show "target A s = None \<longleftrightarrow>
      sym_kind s \<noteq> Kind_Type \<and> (sym_kind s = Kind_Var \<longrightarrow> skipped A s)"
    by (cases "sym_kind s") (auto simp add: target_def skipped_def split: option.splits)
qed

theorem ccls_vars_skips_untyped_variables_witness:
  "sym_kind \<lparr>sym_usr = 1, sym_kind = Kind_Var\<rparr> = Kind_Var \<and>
   skipped (\<lambda>u. if u = 3 then Some \<lparr>def_type = 0\<rparr>
                 else if u = 4 then Some \<lparr>def_type = 9\<rparr> else None)
     \<lparr>sym_usr = 1, sym_kind = Kind_Var\<rparr> \<and>
   target (\<lambda>u. if u = 3 then Some \<lparr>def_type = 0\<rparr>
                else if u = 4 then Some \<lparr>def_type = 9\<rparr> else None)
     \<lparr>sym_usr = 1, sym_kind = Kind_Var\<rparr> = None \<and>
   ccls_vars (\<lambda>u. if u = 3 then Some \<lparr>def_type = 0\<rparr>
                   else if u = 4 then Some \<lparr>def_type = 9\<rparr> else None)
     (\<lambda>u. [u]) True
     [\<lparr>sym_usr = 4, sym_kind = Kind_Var\<rparr>, \<lparr>sym_usr = 1, sym_kind = Kind_Var\<rparr>,
      \<lparr>sym_usr = 3, sym_kind = Kind_Var\<rparr>, \<lparr>sym_usr = 5, sym_kind = Kind_Func\<rparr>]
   = Some [9]"
  using ccls_vars_skips_untyped_variables [of
      "\<lambda>u. if u = 3 then Some \<lparr>def_type = 0\<rparr> else if u = 4 then Some \<lparr>def_type = 9\<rparr> else None"
      "\<lambda>u. [u]"
      "[\<lparr>sym_usr = 4, sym_kind = Kind_Var\<rparr>, \<lparr>sym_usr = 1, sym_kind = Kind_Var\<rparr>,
        \<lparr>sym_usr = 3, sym_kind = Kind_Var\<rparr>, \<lparr>sym_usr = 5, sym_kind = Kind_Func\<rparr>]"
      _ "\<lparr>sym_usr = 1, sym_kind = Kind_Var\<rparr>"]
  by (simp add: target_def skipped_def)


end
